theory Spec2Isabelle
  imports Complex_Main "HOL-Library.Word" "HOL-Library.Stream"
begin

section \<open>Run-time values\<close>

text \<open>
  A JavaScript number is a double: a finite value, one of the two infinities, or NaN.
  Finite values are modelled as reals. The one place where the program's arithmetic
  rounds is the product in \<open>rng.index\<close>, where the rounding is modelled; every other
  number is a small integer or is only compared and passed on.
\<close>

datatype jsnum = Finite real | PosInfinity | NegInfinity | NaN

text \<open>The values \<open>JSON.parse\<close> produces. An object is its list of own properties.\<close>

datatype json =
    JNull
  | JBool bool
  | JNum jsnum
  | JStr string
  | JArr "json list"
  | JObj "(string \<times> json) list"

text \<open>
  Property read \<open>v.p\<close> for the property names the program uses; \<open>None\<close> is
  \<open>undefined\<close>. Reading a property of \<open>null\<close> throws, which the callers model.
\<close>

fun getProp :: "json \<Rightarrow> string \<Rightarrow> json option" where
  "getProp (JObj fs) p = map_of fs p"
| "getProp _ p = None"

text \<open>Truthiness, as \<open>||\<close> and \<open>!\<close> test it.\<close>

fun truthy :: "json option \<Rightarrow> bool" where
  "truthy None = False"
| "truthy (Some JNull) = False"
| "truthy (Some (JBool b)) = b"
| "truthy (Some (JNum (Finite x))) = (x \<noteq> 0)"
| "truthy (Some (JNum NaN)) = False"
| "truthy (Some (JNum _)) = True"
| "truthy (Some (JStr s)) = (s \<noteq> [])"
| "truthy (Some (JArr _)) = True"
| "truthy (Some (JObj _)) = True"

text \<open>
  The built-ins of the engine that the program calls on text: Unicode normalisation,
  removal of \<open>\p{Diacritic}\<close> characters, locale lower-casing, the conversion of a
  string or an array to a number, and whether \<open>new Date(s)\<close> is a valid date. They are
  parameters of the model: every theorem below holds whatever they compute.
\<close>

record builtins =
  normalizeNFC :: "string \<Rightarrow> string"
  normalizeNFKD :: "string \<Rightarrow> string"
  removeDiacritic :: "string \<Rightarrow> string"
  toLocaleLowerCase :: "string \<Rightarrow> string"
  toNumber :: "json \<Rightarrow> jsnum"
  validDate :: "string \<Rightarrow> bool"

text \<open>
  \<open>crypto\<close>: the entropy source, as the two streams of results its calls will return.
  \<open>getRandomValues\<close> on a one-element \<open>Uint32Array\<close> takes the next 32-bit word,
  \<open>randomUUID\<close> the next identifier.
\<close>

record crypto =
  randomValues :: "32 word stream"
  randomUUIDs :: "string stream"

definition getRandomValues :: "crypto \<Rightarrow> 32 word \<times> crypto" where
  "getRandomValues c = (shd (randomValues c), c\<lparr>randomValues := stl (randomValues c)\<rparr>)"

definition randomUUID :: "crypto \<Rightarrow> string \<times> crypto" where
  "randomUUID c = (shd (randomUUIDs c), c\<lparr>randomUUIDs := stl (randomUUIDs c)\<rparr>)"

section \<open>Containers of the engine\<close>

text \<open>
  A \<open>Set\<close> iterates in insertion order: a list without repetition. \<open>add\<close> of a
  member changes nothing, \<open>new Set(xs)\<close> adds the elements of \<open>xs\<close> in order.
\<close>

definition set_add :: "'a \<Rightarrow> 'a list \<Rightarrow> 'a list" where
  "set_add x s = (if x \<in> set s then s else s @ [x])"

definition set_delete :: "'a \<Rightarrow> 'a list \<Rightarrow> 'a list" where
  "set_delete x s = filter (\<lambda>y. y \<noteq> x) s"

definition new_Set :: "'a list \<Rightarrow> 'a list" where
  "new_Set xs = foldl (\<lambda>s x. set_add x s) [] xs"

text \<open>
  A \<open>Map\<close> iterates in insertion order of its keys: \<open>set\<close> of a key already present
  replaces the value in place, a new key goes to the end.
\<close>

fun map_set :: "'k \<Rightarrow> 'v \<Rightarrow> ('k \<times> 'v) list \<Rightarrow> ('k \<times> 'v) list" where
  "map_set k v [] = [(k, v)]"
| "map_set k v ((k', v') # m) = (if k' = k then (k, v) # m else (k', v') # map_set k v m)"

definition new_Map :: "('k \<times> 'v) list \<Rightarrow> ('k \<times> 'v) list" where
  "new_Map es = foldl (\<lambda>m (k, v). map_set k v m) [] es"

definition map_values :: "('k \<times> 'v) list \<Rightarrow> 'v list" where
  "map_values m = map snd m"

text \<open>\<open>xs[i]\<close>: \<open>undefined\<close> out of range.\<close>

definition at_index :: "'a list \<Rightarrow> nat \<Rightarrow> 'a option" where
  "at_index xs i = (if i < length xs then Some (xs ! i) else None)"

section \<open>utils\<close>

text \<open>
  Strings are sequences of code units. \<open>\s\<close> and \<open>trim\<close> recognise the white space
  and line terminators of the engine; among the code units of \<open>char\<close> these are
  tab, line feed, vertical tab, form feed, carriage return, space and no-break space.
\<close>

definition isSpace :: "char \<Rightarrow> bool" where
  "isSpace c \<longleftrightarrow>
     c \<in> set [CHR 0x09, CHR 0x0A, CHR 0x0B, CHR 0x0C, CHR 0x0D, CHR 0x20, CHR 0xA0]"

text \<open>\<open>s.replace(/p+/g, r)\<close>: every maximal run of characters in \<open>p\<close> becomes one \<open>r\<close>.\<close>

function replaceRuns :: "(char \<Rightarrow> bool) \<Rightarrow> char \<Rightarrow> string \<Rightarrow> string" where
  "replaceRuns p r [] = []"
| "replaceRuns p r (c # cs) =
     (if p c then r # replaceRuns p r (dropWhile p cs) else c # replaceRuns p r cs)"
  by pat_completeness auto
termination
  by (relation "measure (\<lambda>(p, r, s). length s)")
     (auto simp: length_dropWhile_le less_Suc_eq_le)

definition trim :: "string \<Rightarrow> string" where
  "trim s = rev (dropWhile isSpace (rev (dropWhile isSpace s)))"

text \<open>
  \<open>raw.normalize('NFC').replace(/\s+/g, ' ').trim()\<close>, the cleaning that
  \<open>sanitizeRawInput\<close>, \<open>mergeNames\<close> and \<open>importPayload\<close> each apply to a name.
\<close>

definition clean :: "builtins \<Rightarrow> string \<Rightarrow> string" where
  "clean B raw = trim (replaceRuns isSpace (CHR '' '') (normalizeNFC B raw))"

text \<open>The characters \<open>/[^a-z0-9\s-]/g\<close> leaves in place.\<close>

definition alnum :: string where
  "alnum = ''abcdefghijklmnopqrstuvwxyz0123456789''"

definition keptChar :: "char \<Rightarrow> bool" where
  "keptChar c \<longleftrightarrow> c \<in> set alnum \<or> isSpace c \<or> c = CHR ''-''"

text \<open>
  \<open>s.replace(/^-|-$/g, '')\<close>: a hyphen at the start is removed, and a hyphen at the
  end of what is left.
\<close>

definition stripEdgeDashes :: "string \<Rightarrow> string" where
  "stripEdgeDashes s =
     (let s1 = (case s of [] \<Rightarrow> [] | c # cs \<Rightarrow> if c = CHR ''-'' then cs else s)
      in if s1 \<noteq> [] \<and> last s1 = CHR ''-'' then butlast s1 else s1)"

text \<open>\<open>n.toString(16)\<close> for a natural number.\<close>

definition hexDigits :: string where
  "hexDigits = ''0123456789abcdef''"

definition hexDigit :: "nat \<Rightarrow> char" where
  "hexDigit d = hexDigits ! d"

fun toString16 :: "nat \<Rightarrow> string" where
  "toString16 n =
     (if n < 16 then [hexDigit n] else toString16 (n div 16) @ [hexDigit (n mod 16)])"

declare toString16.simps [simp del]

text \<open>
  \<open>createKey\<close>, lines 21 to 25: the value of \<open>trimmed\<close>, which depends on the text
  alone.
\<close>

definition slug :: "builtins \<Rightarrow> string \<Rightarrow> string" where
  "slug B raw =
     (let normalized = normalizeNFKD B raw;
          withoutMarks = removeDiacritic B normalized;
          lower = toLocaleLowerCase B withoutMarks;
          dashed = replaceRuns isSpace (CHR ''-'') (filter keptChar lower);
          trimmed = stripEdgeDashes (replaceRuns (\<lambda>c. c = CHR ''-'') (CHR ''-'') dashed)
      in trimmed)"

text \<open>
  \<open>createKey\<close>: the slug when it is not empty; otherwise \<open>id-\<close> and the hexadecimal
  digits of a fresh 32-bit random word.
\<close>

definition createKey :: "builtins \<Rightarrow> string \<Rightarrow> crypto \<Rightarrow> string \<times> crypto" where
  "createKey B raw c =
     (let trimmed = slug B raw
      in if trimmed \<noteq> [] then (trimmed, c)
         else (let (r, c') = getRandomValues c in (''id-'' @ toString16 (unat r), c')))"

record name =
  raw :: string
  key :: string

text \<open>
  \<open>mergeNames\<close>: the loop over \<open>rawNames\<close>, on the map from key to entry.
\<close>

fun mergeLoop ::
  "builtins \<Rightarrow> (string \<times> name) list \<Rightarrow> string list \<Rightarrow> crypto \<Rightarrow> (string \<times> name) list \<times> crypto"
where
  "mergeLoop B m [] c = (m, c)"
| "mergeLoop B m (r # rs) c =
     (let cl = clean B r
      in if cl = [] then mergeLoop B m rs c
         else (let (k, c') = createKey B cl c
               in mergeLoop B (map_set k \<lparr>raw = cl, key = k\<rparr> m) rs c'))"

definition mergeNames ::
  "builtins \<Rightarrow> name list \<Rightarrow> string list \<Rightarrow> crypto \<Rightarrow> name list \<times> crypto"
where
  "mergeNames B existing rawNames c =
     (let (m, c') = mergeLoop B (new_Map (map (\<lambda>item. (key item, item)) existing)) rawNames c
      in (map_values m, c'))"

section \<open>rng\<close>

text \<open>
  A double has 53 significant bits. \<open>excess p\<close> is the number of bits by which the
  integer \<open>p\<close> exceeds them.
\<close>

function excess :: "int \<Rightarrow> nat" where
  "excess p = (if p < 2 ^ 53 then 0 else Suc (excess (p div 2)))"
  by pat_completeness auto
termination
  by (relation "measure nat") auto

declare excess.simps [simp del]

text \<open>
  The integer \<open>p \<ge> 0\<close> rounded to 53 significant bits, to the nearest, ties to the even
  significand: the rounding of every arithmetic operation on doubles.
\<close>

definition roundDouble :: "int \<Rightarrow> int" where
  "roundDouble p =
     (let e = excess p; q = p div 2 ^ e; rest = p mod 2 ^ e
      in if 2 ^ e < 2 * rest \<or> (2 * rest = 2 ^ e \<and> odd q) then (q + 1) * 2 ^ e
         else q * 2 ^ e)"

text \<open>
  \<open>rng.index\<close> after the draw, on the raw word \<open>r\<close> and \<open>max\<close> (here \<open>mx\<close>, an
  integer that a double holds; the callers pass the length of the list of present
  names). \<open>fraction = array[0] / (0xffffffff + 1)\<close> is the exact \<open>r / 2 ^ 32\<close>, a
  division by a power of two. \<open>fraction * max\<close> is the exact product
  \<open>r * max / 2 ^ 32\<close> rounded to a double; scaling by \<open>2 ^ 32\<close> does not change the
  significand, so the double is \<open>roundDouble (r * max) / 2 ^ 32\<close>. \<open>Math.floor\<close> is
  exact.
\<close>

definition scaled :: "int \<Rightarrow> 32 word \<Rightarrow> int" where
  "scaled mx r = \<lfloor>real_of_int (roundDouble (uint r * mx)) / (0xffffffff + 1)\<rfloor>"

definition index :: "int \<Rightarrow> crypto \<Rightarrow> int \<times> crypto" where
  "index mx c =
     (if mx \<le> 0 then (0, c)
      else (let (r, c') = getRandomValues c in (scaled mx r, c')))"

text \<open>How many of the \<open>2 ^ 32\<close> raw words \<open>rng.index\<close> maps to the value \<open>v\<close>.\<close>

definition draws :: "int \<Rightarrow> int \<Rightarrow> nat" where
  "draws mx v = card {r :: 32 word. scaled mx r = v}"

text \<open>The quotient \<open>a / k\<close> rounded up, for a positive \<open>k\<close>.\<close>

definition cdiv :: "int \<Rightarrow> int \<Rightarrow> int" where
  "cdiv a k = (a + k - 1) div k"

section \<open>state\<close>

text \<open>A history entry \<open>{ key, ts, id }\<close>.\<close>

record entry =
  ekey :: string
  ts :: string
  eid :: json

record settings =
  spinMs :: real
  reducedMotionMode :: string
  theme :: string

record data =
  classKey :: json
  names :: "name list"
  absentKeys :: "string list"
  history :: "entry list"
  settings :: settings

definition APP_VERSION :: real where
  "APP_VERSION = 1"

definition DEFAULT_CLASS_KEY :: string where
  "DEFAULT_CLASS_KEY = ''trida-1''"

definition DEFAULT_SETTINGS :: settings where
  "DEFAULT_SETTINGS = \<lparr>spinMs = 2600, reducedMotionMode = ''auto'', theme = ''auto''\<rparr>"

text \<open>The store's \<open>data\<close> when the module is loaded.\<close>

definition initialData :: data where
  "initialData =
     \<lparr>classKey = JStr DEFAULT_CLASS_KEY, names = [], absentKeys = [], history = [],
      settings = DEFAULT_SETTINGS\<rparr>"

text \<open>
  The operations of \<open>state\<close> on \<open>data\<close>. Each one ends with \<open>notify()\<close>, which is
  modelled with the subscriber in the section on \<open>ui\<close>.
\<close>

definition setClassKey :: "json \<Rightarrow> data \<Rightarrow> data" where
  "setClassKey k d = d\<lparr>classKey := (if truthy (Some k) then k else JStr DEFAULT_CLASS_KEY)\<rparr>"

text \<open>
  \<open>updateFromStorage\<close> on a payload that has all four properties, as the payload of
  an import has; the absence keys go through \<open>new Set\<close>.
\<close>

definition updateFromStorage :: "'a data_scheme \<Rightarrow> data \<Rightarrow> data" where
  "updateFromStorage payload d =
     d\<lparr>names := names payload,
       absentKeys := new_Set (absentKeys payload),
       history := history payload,
       settings := settings payload\<rparr>"

definition setNames :: "name list \<Rightarrow> data \<Rightarrow> data" where
  "setNames newNames d =
     (let validKeys = new_Set (map key newNames)
      in d\<lparr>names := newNames,
           absentKeys := new_Set (filter (\<lambda>k. k \<in> set validKeys) (absentKeys d))\<rparr>)"

definition toggleAbsent :: "string \<Rightarrow> bool \<Rightarrow> data \<Rightarrow> data" where
  "toggleAbsent k isAbsent d =
     (if isAbsent then d\<lparr>absentKeys := set_add k (absentKeys d)\<rparr>
      else d\<lparr>absentKeys := set_delete k (absentKeys d)\<rparr>)"

definition clearAbsent :: "data \<Rightarrow> data" where
  "clearAbsent d = d\<lparr>absentKeys := []\<rparr>"

definition addHistory :: "entry \<Rightarrow> data \<Rightarrow> data" where
  "addHistory e d = d\<lparr>history := take 20 (e # history d)\<rparr>"

definition resetHistory :: "data \<Rightarrow> data" where
  "resetHistory d = d\<lparr>history := []\<rparr>"

text \<open>The properties a caller of \<open>setSettings\<close> puts in \<open>partial\<close>, in order.\<close>

datatype setting = SpinMs real | ReducedMotionMode string | Theme string

fun assign :: "settings \<Rightarrow> setting \<Rightarrow> settings" where
  "assign s (SpinMs x) = s\<lparr>spinMs := x\<rparr>"
| "assign s (ReducedMotionMode m) = s\<lparr>reducedMotionMode := m\<rparr>"
| "assign s (Theme t) = s\<lparr>theme := t\<rparr>"

definition setSettings :: "setting list \<Rightarrow> data \<Rightarrow> data" where
  "setSettings partial d = d\<lparr>settings := foldl assign (settings d) partial\<rparr>"

definition getPresentNames :: "data \<Rightarrow> name list" where
  "getPresentNames d = filter (\<lambda>n. key n \<notin> set (absentKeys d)) (names d)"

text \<open>The Absence Set invariant: every absence key is the key of a roster entry.\<close>

definition absentValid :: "data \<Rightarrow> bool" where
  "absentValid d \<longleftrightarrow> list_all (\<lambda>k. k \<in> set (map key (names d))) (absentKeys d)"

section \<open>storage\<close>

text \<open>
  The errors of an import. \<open>parse\<close> throws an \<open>Error\<close> whose message tells the three
  cases apart: invalid JSON syntax, a value that is not an object, and an unsupported
  version (the message quotes the version found). \<open>TypeError\<close> is the engine's, for a
  property read on \<open>null\<close>.
\<close>

datatype error =
    InvalidSyntax
  | NotAnObject
  | UnsupportedVersion "json option"
  | NoValidData
  | TypeError

text \<open>\<open>String(i)\<close> for an array index.\<close>

fun decimal :: "nat \<Rightarrow> string" where
  "decimal n =
     (if n < 10 then [''0123456789'' ! n] else decimal (n div 10) @ [''0123456789'' ! (n mod 10)])"

declare decimal.simps [simp del]

text \<open>
  The own enumerable properties an object spread \<open>{...v}\<close> copies: the properties of
  an object, the indexed elements of an array or a string, nothing otherwise.
\<close>

fun ownProps :: "json option \<Rightarrow> (string \<times> json) list" where
  "ownProps (Some (JObj fs)) = fs"
| "ownProps (Some (JArr xs)) = zip (map decimal [0..<length xs]) xs"
| "ownProps (Some (JStr s)) = zip (map decimal [0..<length s]) (map (\<lambda>c. JStr [c]) s)"
| "ownProps _ = []"

text \<open>\<open>{...a, ...b}\<close> on property lists.\<close>

definition spread :: "(string \<times> json) list \<Rightarrow> (string \<times> json) list \<Rightarrow> (string \<times> json) list" where
  "spread a b = foldl (\<lambda>m (k, v). map_set k v m) a b"

text \<open>\<open>a ?? b\<close>.\<close>

definition nullish :: "json option \<Rightarrow> json \<Rightarrow> json" where
  "nullish a b = (case a of None \<Rightarrow> b | Some JNull \<Rightarrow> b | Some v \<Rightarrow> v)"

definition defaultSettingsProps :: "(string \<times> json) list" where
  "defaultSettingsProps =
     [(''spinMs'', JNum (Finite (spinMs DEFAULT_SETTINGS))),
      (''reducedMotionMode'', JStr (reducedMotionMode DEFAULT_SETTINGS)),
      (''theme'', JStr (theme DEFAULT_SETTINGS))]"

definition migrate :: "json \<Rightarrow> json" where
  "migrate payload =
     (if \<not> truthy (Some payload) then JNull
      else if getProp payload ''version'' = Some (JNum (Finite APP_VERSION)) then payload
      else JObj
        [(''version'', JNum (Finite APP_VERSION)),
         (''classKey'', nullish (getProp payload ''classKey'') (JStr DEFAULT_CLASS_KEY)),
         (''names'', nullish (getProp payload ''names'') (JArr [])),
         (''absentKeys'', nullish (getProp payload ''absentKeys'') (JArr [])),
         (''history'', nullish (getProp payload ''history'') (JArr [])),
         (''settings'',
            JObj (spread defaultSettingsProps
              (ownProps (Some (nullish (getProp payload ''settings'') (JObj []))))))])"

text \<open>\<open>typeof v === 'object' && v !== null\<close>.\<close>

fun isObject :: "json \<Rightarrow> bool" where
  "isObject (JObj _) = True"
| "isObject (JArr _) = True"
| "isObject _ = False"

text \<open>
  \<open>parse\<close>. Its argument is what \<open>JSON.parse\<close> made of the text: \<open>None\<close> when it
  threw a \<open>SyntaxError\<close>, the parsed value otherwise.
\<close>

definition parse :: "json option \<Rightarrow> error + json" where
  "parse json =
     (case json of
        None \<Rightarrow> Inl InvalidSyntax
      | Some parsed \<Rightarrow>
          if \<not> isObject parsed then Inl NotAnObject
          else if getProp parsed ''version'' \<noteq> Some (JNum (Finite APP_VERSION))
            then Inl (UnsupportedVersion (getProp parsed ''version''))
          else Inr (migrate parsed))"

text \<open>
  The payload of an export or an import: the properties of \<open>data\<close> and the version.
\<close>

record payload = data +
  version :: real


text \<open>\<open>Array.isArray(v) ? v : []\<close>.\<close>

definition arrayOr :: "json option \<Rightarrow> json list" where
  "arrayOr v = (case v of Some (JArr xs) \<Rightarrow> xs | _ \<Rightarrow> [])"

text \<open>
  The \<open>forEach\<close> over \<open>rawNames\<close> in \<open>importPayload\<close>, on \<open>sanitizedNames\<close> and
  \<open>seenKeys\<close>. \<open>item.raw\<close> throws when the item is \<open>null\<close>.
\<close>

fun sanitizeNames ::
  "builtins \<Rightarrow> json list \<Rightarrow> name list \<Rightarrow> string list \<Rightarrow> crypto
    \<Rightarrow> (error + name list \<times> string list) \<times> crypto"
where
  "sanitizeNames B [] sanitizedNames seenKeys c = (Inr (sanitizedNames, seenKeys), c)"
| "sanitizeNames B (item # items) sanitizedNames seenKeys c =
     (if item = JNull then (Inl TypeError, c)
      else
        (let r = (case getProp item ''raw'' of Some (JStr s) \<Rightarrow> clean B s | _ \<Rightarrow> [])
         in if r = [] then sanitizeNames B items sanitizedNames seenKeys c
            else
              (let (k, c') = createKey B r c
               in if k \<in> set seenKeys then sanitizeNames B items sanitizedNames seenKeys c'
                  else sanitizeNames B items (sanitizedNames @ [\<lparr>raw = r, key = k\<rparr>])
                         (set_add k seenKeys) c')))"

text \<open>\<open>parsed.absentKeys.filter((key) => seenKeys.has(key))\<close>: only a string can be a member.\<close>

definition filterAbsent :: "string list \<Rightarrow> json list \<Rightarrow> string list" where
  "filterAbsent seenKeys xs =
     concat (map (\<lambda>v. case v of JStr k \<Rightarrow> if k \<in> set seenKeys then [k] else [] | _ \<Rightarrow> []) xs)"

text \<open>
  The \<open>map\<close> over \<open>parsed.history\<close>: each entry's \<open>key\<close>, \<open>ts\<close> and
  \<open>id || crypto.randomUUID()\<close>. \<open>entry.key\<close> throws when the entry is \<open>null\<close>.
\<close>

fun mapHistory ::
  "json list \<Rightarrow> crypto \<Rightarrow> (error + (json option \<times> json option \<times> json) list) \<times> crypto"
where
  "mapHistory [] c = (Inr [], c)"
| "mapHistory (e # es) c =
     (if e = JNull then (Inl TypeError, c)
      else
        (let (i, c') = (case getProp e ''id'' of
                          Some v \<Rightarrow> if truthy (Some v) then (v, c)
                                    else (let (u, c1) = randomUUID c in (JStr u, c1))
                        | None \<Rightarrow> (let (u, c1) = randomUUID c in (JStr u, c1)))
         in case mapHistory es c' of
              (Inl err, c'') \<Rightarrow> (Inl err, c'')
            | (Inr rest, c'') \<Rightarrow> (Inr ((getProp e ''key'', getProp e ''ts'', i) # rest), c'')))"

text \<open>
  The \<open>filter\<close> that follows: the key is in \<open>seenKeys\<close>, \<open>ts\<close> is a string and a valid
  date. What passes has a string for key and for \<open>ts\<close>.
\<close>

definition filterHistory ::
  "builtins \<Rightarrow> string list \<Rightarrow> (json option \<times> json option \<times> json) list \<Rightarrow> entry list"
where
  "filterHistory B seenKeys es =
     concat (map (\<lambda>(k, t, i).
       case (k, t) of
         (Some (JStr k'), Some (JStr t')) \<Rightarrow>
           if k' \<in> set seenKeys \<and> validDate B t' then [\<lparr>ekey = k', ts = t', eid = i\<rparr>] else []
       | _ \<Rightarrow> []) es)"

text \<open>\<open>Number(v)\<close>; on a string or an array it is the engine's conversion.\<close>

definition Number :: "builtins \<Rightarrow> json option \<Rightarrow> jsnum" where
  "Number B v =
     (case v of
        None \<Rightarrow> NaN
      | Some JNull \<Rightarrow> Finite 0
      | Some (JBool b) \<Rightarrow> Finite (if b then 1 else 0)
      | Some (JNum n) \<Rightarrow> n
      | Some (JObj fs) \<Rightarrow> NaN
      | Some w \<Rightarrow> toNumber B w)"

text \<open>
  The settings of \<open>importPayload\<close>: the spread of the defaults and \<open>parsed.settings\<close>,
  then the three assignments. Properties other than these three, which the spread
  carries along and the program never reads, are left out of the result.
\<close>

definition importSettings :: "builtins \<Rightarrow> json \<Rightarrow> settings" where
  "importSettings B parsed =
     (let merged = spread defaultSettingsProps
            (ownProps (Some (nullish (getProp parsed ''settings'') (JObj []))));
          spin = (case Number B (map_of merged ''spinMs'') of
                    Finite x \<Rightarrow> x
                  | _ \<Rightarrow> spinMs DEFAULT_SETTINGS);
          motion = (case map_of merged ''reducedMotionMode'' of
                      Some (JStr m) \<Rightarrow>
                        if m \<in> set [''auto'', ''on'', ''off''] then m
                        else reducedMotionMode DEFAULT_SETTINGS
                    | _ \<Rightarrow> reducedMotionMode DEFAULT_SETTINGS);
          th = (case map_of merged ''theme'' of
                  Some (JStr t) \<Rightarrow>
                    if t \<in> set [''auto'', ''light'', ''dark''] then t
                    else theme DEFAULT_SETTINGS
                | _ \<Rightarrow> theme DEFAULT_SETTINGS)
      in \<lparr>spinMs = spin, reducedMotionMode = motion, theme = th\<rparr>)"

definition importPayload :: "builtins \<Rightarrow> json option \<Rightarrow> crypto \<Rightarrow> (error + payload) \<times> crypto" where
  "importPayload B json c =
     (case parse json of
        Inl err \<Rightarrow> (Inl err, c)
      | Inr parsed \<Rightarrow>
          if \<not> truthy (Some parsed) then (Inl NoValidData, c)
          else
            (case sanitizeNames B (arrayOr (getProp parsed ''names'')) [] [] c of
               (Inl err, c1) \<Rightarrow> (Inl err, c1)
             | (Inr (sanitizedNames, seenKeys), c1) \<Rightarrow>
                 (let absent = filterAbsent seenKeys (arrayOr (getProp parsed ''absentKeys''))
                  in case mapHistory (arrayOr (getProp parsed ''history'')) c1 of
                       (Inl err, c2) \<Rightarrow> (Inl err, c2)
                     | (Inr mapped, c2) \<Rightarrow>
                         (Inr \<lparr>classKey =
                                 (case getProp parsed ''classKey'' of
                                    Some k \<Rightarrow> if truthy (Some k) then k else JStr DEFAULT_CLASS_KEY
                                  | None \<Rightarrow> JStr DEFAULT_CLASS_KEY),
                               names = sanitizedNames,
                               absentKeys = absent,
                               history = take 20 (filterHistory B seenKeys mapped),
                               settings = importSettings B parsed,
                               version = APP_VERSION\<rparr>, c2))))"






section \<open>wheel and ui\<close>

text \<open>
  The variables of the \<open>ui\<close> and \<open>wheel\<close> closures that decide what a draw does,
  with the store's \<open>data\<close>. \<open>pendingIndex\<close> is the index held by the
  \<open>transitionend\<close> listener of a spin in progress; \<open>drawBtnDisabled\<close> is the
  \<open>disabled\<close> property of the draw button.
\<close>

record ui =
  store :: data
  lastWinnerKey :: "string option"
  isHydrating :: bool
  isDrawing :: bool
  currentReduced :: bool
  drawBtnDisabled :: bool
  locked :: bool
  spinning :: bool
  currentNames :: "name list"
  pendingIndex :: "nat option"

definition updateButtons :: "data \<Rightarrow> ui \<Rightarrow> ui" where
  "updateButtons snapshot u =
     (let present = filter (\<lambda>n. key n \<notin> set (absentKeys snapshot)) (names snapshot);
          disabled = (length present \<le> 1)
      in u\<lparr>drawBtnDisabled := disabled\<rparr>)"

text \<open>
  \<open>notify\<close>: the one subscriber, registered in \<open>init\<close>, runs \<open>handleStateChange\<close> and
  then \<open>wheel.update\<close> on the present names. The writes to the page and to
  \<open>localStorage\<close> are not part of the model.
\<close>

definition notify :: "ui \<Rightarrow> ui" where
  "notify u =
     (let snapshot = store u;
          present = getPresentNames (store u);
          u1 = (case lastWinnerKey u of
                  Some k \<Rightarrow>
                    if k \<noteq> [] \<and> k \<notin> set (map key present) then u\<lparr>lastWinnerKey := None\<rparr>
                    else u
                | None \<Rightarrow> u);
          u2 = updateButtons snapshot u1
      in u2\<lparr>currentNames := present\<rparr>)"

definition lockInteractions :: "bool \<Rightarrow> ui \<Rightarrow> ui" where
  "lockInteractions lock u =
     (if lock then u\<lparr>locked := True, drawBtnDisabled := True\<rparr>
      else updateButtons (store u) (u\<lparr>locked := False\<rparr>))"

definition shouldReduceMotion :: "settings \<Rightarrow> ui \<Rightarrow> bool" where
  "shouldReduceMotion s u =
     (if reducedMotionMode s = ''on'' then True
      else if reducedMotionMode s = ''off'' then False
      else currentReduced u)"

text \<open>
  What \<open>wheel.spinTo\<close> returns: a promise already resolved with a name or with nothing
  (\<open>undefined\<close> or \<open>null\<close>), or one that the \<open>transitionend\<close> event will resolve.
\<close>

datatype promise = Resolved "name option" | Pending

definition spinTo :: "nat \<Rightarrow> bool \<Rightarrow> ui \<Rightarrow> promise \<times> ui" where
  "spinTo i reduceMotion u =
     (if currentNames u = [] then (Resolved None, u)
      else if reduceMotion then (Resolved (at_index (currentNames u) i), u)
      else if spinning u then (Resolved None, u)
      else (Pending, u\<lparr>spinning := True, pendingIndex := Some i\<rparr>))"

text \<open>
  \<open>handleDraw\<close> from the point where \<open>await\<close> yields \<open>selected\<close>: the \<open>finally\<close>
  block, then the recording of the winner. \<open>now\<close> is \<open>new Date().toISOString()\<close>.
\<close>

definition handleDrawResume :: "name option \<Rightarrow> string \<Rightarrow> ui \<Rightarrow> crypto \<Rightarrow> ui \<times> crypto" where
  "handleDrawResume selected now u c =
     (let u1 = (lockInteractions False u)\<lparr>isDrawing := False\<rparr>
      in case selected of
           None \<Rightarrow> (u1, c)
         | Some sel \<Rightarrow>
             (let u2 = u1\<lparr>lastWinnerKey := Some (key sel)\<rparr>;
                  (i, c') = randomUUID c
              in (notify (u2\<lparr>store := addHistory \<lparr>ekey = key sel, ts = now, eid = JStr i\<rparr> (store u2)\<rparr>),
                  c')))"

text \<open>
  \<open>handleDraw\<close> up to \<open>await\<close>. When the promise is already resolved the rest of the
  function runs before any other event is handled, so it is part of the same step.
\<close>

definition handleDraw :: "string \<Rightarrow> ui \<Rightarrow> crypto \<Rightarrow> ui \<times> crypto" where
  "handleDraw now u c =
     (if isDrawing u \<or> spinning u then (u, c)
      else
        (let u1 = u\<lparr>isDrawing := True\<rparr>;
             snapshot = store u1;
             present = filter (\<lambda>n. key n \<notin> set (absentKeys snapshot)) (names snapshot)
         in if length present = 0 then (u1\<lparr>isDrawing := False\<rparr>, c)
            else
              (let (i, c1) = index (int (length present)) c;
                   reduceMotion = shouldReduceMotion (settings snapshot) u1;
                   u2 = lockInteractions True u1;
                   (p, u3) = spinTo (nat i) reduceMotion u2
               in case p of
                    Resolved selected \<Rightarrow> handleDrawResume selected now u3 c1
                  | Pending \<Rightarrow> (u3, c1))))"

text \<open>
  The \<open>transitionend\<close> listener of \<open>spinTo\<close>, followed by the rest of \<open>handleDraw\<close>,
  which the resolved promise resumes.
\<close>

definition onTransitionEnd :: "string \<Rightarrow> ui \<Rightarrow> crypto \<Rightarrow> ui \<times> crypto" where
  "onTransitionEnd now u c =
     (case pendingIndex u of
        None \<Rightarrow> (u, c)
      | Some i \<Rightarrow>
          (let u1 = u\<lparr>spinning := False, pendingIndex := None\<rparr>
           in handleDrawResume (at_index (currentNames u1) i) now u1 c))"

text \<open>A click on the draw button reaches \<open>handleDraw\<close> only while the button is enabled.\<close>

definition clickDraw :: "string \<Rightarrow> ui \<Rightarrow> crypto \<Rightarrow> ui \<times> crypto" where
  "clickDraw now u c = (if drawBtnDisabled u then (u, c) else handleDraw now u c)"

text \<open>
  \<open>handleKeyboard\<close>: \<open>inField\<close> says that the focus is in an input, a text area or a
  select; \<open>k\<close> is \<open>event.key\<close>.
\<close>

definition handleKeyboard :: "bool \<Rightarrow> string \<Rightarrow> string \<Rightarrow> ui \<Rightarrow> crypto \<Rightarrow> ui \<times> crypto" where
  "handleKeyboard inField k now u c =
     (if inField then (u, c)
      else
        (let (u1, c1) = (if k = ''Enter'' \<or> k = ''z'' \<or> k = ''Z'' then handleDraw now u c
                         else (u, c));
             u2 = (if k = ''r'' \<or> k = ''R'' then notify (u1\<lparr>store := resetHistory (store u1)\<rparr>)
                   else u1)
         in (u2, c1)))"

text \<open>
  The \<open>onload\<close> handler of \<open>handleJsonFileChange\<close>, on what \<open>JSON.parse\<close> makes of the
  file's text. The third component is the error the alert reports.
\<close>

definition handleJsonFileChange :: "builtins \<Rightarrow> json option \<Rightarrow> ui \<Rightarrow> crypto \<Rightarrow> ui \<times> crypto \<times> error option" where
  "handleJsonFileChange B json u c =
     (case importPayload B json c of
        (Inl err, c') \<Rightarrow> (u, c', Some err)
      | (Inr payload, c') \<Rightarrow>
          (let u1 = u\<lparr>lastWinnerKey :=
                       (case history payload of [] \<Rightarrow> None | h # hs \<Rightarrow> Some (ekey h))\<rparr>;
               u2 = u1\<lparr>isHydrating := True\<rparr>;
               u3 = notify (u2\<lparr>store := setClassKey (classKey payload) (store u2)\<rparr>);
               u4 = notify (u3\<lparr>store := updateFromStorage payload (store u3)\<rparr>)
           in (u4\<lparr>isHydrating := False\<rparr>, c', None)))"

text \<open>
  The \<open>ui\<close> at rest on the store \<open>d\<close>, as the subscriber leaves it: no draw in
  progress, nothing locked, the wheel showing the present names.
\<close>

definition idleUi :: "data \<Rightarrow> ui" where
  "idleUi d =
     notify
       \<lparr>store = d, lastWinnerKey = None, isHydrating = False, isDrawing = False,
        currentReduced = False, drawBtnDisabled = False, locked = False, spinning = False,
        currentNames = [], pendingIndex = None\<rparr>"

section \<open>Notions of the statements\<close>

text \<open>No two hyphens side by side.\<close>

fun noDoubleDash :: "string \<Rightarrow> bool" where
  "noDoubleDash (a # b # cs) \<longleftrightarrow> \<not> (a = CHR ''-'' \<and> b = CHR ''-'') \<and> noDoubleDash (b # cs)"
| "noDoubleDash _ \<longleftrightarrow> True"

text \<open>
  A key made of lower-case ASCII letters, digits and single hyphens, with no hyphen at
  either end.
\<close>

definition slugForm :: "string \<Rightarrow> bool" where
  "slugForm k \<longleftrightarrow>
     k \<noteq> [] \<and> list_all (\<lambda>c. c \<in> set alnum \<or> c = CHR ''-'') k
     \<and> hd k \<noteq> CHR ''-'' \<and> last k \<noteq> CHR ''-'' \<and> noDoubleDash k"

text \<open>The fallback form: \<open>id-\<close> and at least one hexadecimal digit.\<close>

definition fallbackForm :: "string \<Rightarrow> bool" where
  "fallbackForm k \<longleftrightarrow>
     take 3 k = ''id-'' \<and> drop 3 k \<noteq> [] \<and> list_all (\<lambda>c. c \<in> set hexDigits) (drop 3 k)"

text \<open>
  The keys \<open>mergeNames\<close> derives, in input order, each with the cleaned name it was
  derived from: the calls of \<open>createKey\<close> in the loop.
\<close>

fun derived :: "builtins \<Rightarrow> string list \<Rightarrow> crypto \<Rightarrow> (string \<times> string) list" where
  "derived B [] c = []"
| "derived B (r # rs) c =
     (let cl = clean B r
      in if cl = [] then derived B rs c
         else (let (k, c') = createKey B cl c in (k, cl) # derived B rs c'))"

text \<open>A map from keys to roster entries in which every entry has the key it is stored under.\<close>

definition keyed :: "(string \<times> name) list \<Rightarrow> bool" where
  "keyed m \<longleftrightarrow> list_all (\<lambda>(k, n). key n = k) m"



text \<open>
  What every operation of the store leaves as it finds it: the absence set is a \<open>Set\<close>,
  so its list has no repetition, and the class key is truthy.
\<close>

definition storeInvariant :: "data \<Rightarrow> bool" where
  "storeInvariant d \<longleftrightarrow> distinct (absentKeys d) \<and> truthy (Some (classKey d))"




section \<open>Examples\<close>

text \<open>
  A run-time for the closed examples: what the built-ins compute on ASCII names
  (normalisation changes nothing, the diacritics are the circumflex and the grave
  accent, lower-casing maps \<open>A\<close> to \<open>Z\<close> onto \<open>a\<close> to \<open>z\<close>), and on the timestamps that
  \<open>toISOString\<close> writes. No example converts a string to a number.
\<close>

definition asciiLower :: "char \<Rightarrow> char" where
  "asciiLower c =
     (case map_of (zip ''ABCDEFGHIJKLMNOPQRSTUVWXYZ'' ''abcdefghijklmnopqrstuvwxyz'') c of
        Some l \<Rightarrow> l
      | None \<Rightarrow> c)"

definition isoShape :: "string \<Rightarrow> bool" where
  "isoShape s \<longleftrightarrow>
     map (\<lambda>c. if c \<in> set ''0123456789'' then CHR ''0'' else c) s = ''0000-00-00T00:00:00.000Z''"

definition ascii :: builtins where
  "ascii =
     \<lparr>normalizeNFC = (\<lambda>s. s),
      normalizeNFKD = (\<lambda>s. s),
      removeDiacritic = filter (\<lambda>c. c \<noteq> CHR ''^'' \<and> c \<noteq> CHR 0x60),
      toLocaleLowerCase = map asciiLower,
      toNumber = (\<lambda>v. NaN),
      validDate = isoShape\<rparr>"

definition entropy :: "32 word list \<Rightarrow> crypto" where
  "entropy ws = \<lparr>randomValues = ws @- sconst 0, randomUUIDs = sconst ''00000000-0000-4000-8000-000000000000''\<rparr>"

text \<open>The \<open>ui\<close> at rest with one name in the roster, present.\<close>

definition oneName :: ui where
  "oneName = idleUi (setNames [\<lparr>raw = ''Anna'', key = ''anna''\<rparr>] initialData)"




text \<open>A store with the one name Anna, and a history entry for her.\<close>

definition anna :: data where
  "anna = setNames [\<lparr>raw = ''Anna'', key = ''anna''\<rparr>] initialData"
















section \<open>Properties\<close>

subsection \<open>The rounding of the product\<close>

lemma excess_small: "p < 2 ^ 53 \<Longrightarrow> excess p = 0"
  by (simp add: excess.simps)

lemma excess_upper: "p < 2 ^ 53 * 2 ^ excess p"
proof (induction p rule: excess.induct)
  case (1 p)
  show ?case
  proof (cases "p < 2 ^ 53")
    case True
    then show ?thesis by (simp add: excess_small)
  next
    case False
    then have e: "excess p = Suc (excess (p div 2))"
      by (subst excess.simps) simp
    have "p div 2 < 2 ^ 53 * 2 ^ excess (p div 2)"
      using 1 False by simp
    then have "p < 2 * (2 ^ 53 * 2 ^ excess (p div 2))" by linarith
    then show ?thesis unfolding e by (simp only: power_Suc mult.left_commute)
  qed
qed

lemma excess_lower: "0 < excess p \<Longrightarrow> 2 ^ 52 * 2 ^ excess p \<le> p"
proof (induction p rule: excess.induct)
  case (1 p)
  show ?case
  proof (cases "p < 2 ^ 53")
    case True
    then show ?thesis using 1(2) by (simp add: excess_small)
  next
    case False
    then have e: "excess p = Suc (excess (p div 2))"
      by (subst excess.simps) simp
    show ?thesis
    proof (cases "0 < excess (p div 2)")
      case True
      then have "2 ^ 52 * 2 ^ excess (p div 2) \<le> p div 2"
        using 1(1) False by simp
      then have "2 * (2 ^ 52 * 2 ^ excess (p div 2)) \<le> p" by linarith
      then show ?thesis unfolding e by (simp only: power_Suc mult.left_commute)
    next
      case False
      then have "excess (p div 2) = 0" by simp
      then show ?thesis unfolding e using \<open>\<not> p < 2 ^ 53\<close> by simp
    qed
  qed
qed

lemma roundDouble_exact: "p < 2 ^ 53 \<Longrightarrow> roundDouble p = p"
  by (simp add: roundDouble_def excess_small)

lemma roundDouble_nonneg: "0 \<le> p \<Longrightarrow> 0 \<le> roundDouble p"
  by (simp add: roundDouble_def Let_def pos_imp_zdiv_nonneg_iff)

lemma roundDouble_le: "roundDouble p \<le> p + 2 ^ excess p"
proof -
  let ?e = "excess p"
  have d: "p = p div 2 ^ ?e * 2 ^ ?e + p mod 2 ^ ?e"
    by (rule div_mult_mod_eq [symmetric])
  have m: "0 \<le> p mod 2 ^ ?e" by simp
  have "p div 2 ^ ?e * 2 ^ ?e \<le> p" using d m by linarith
  moreover have "(p div 2 ^ ?e + 1) * 2 ^ ?e = p div 2 ^ ?e * 2 ^ ?e + 2 ^ ?e"
    by (simp add: algebra_simps)
  moreover have "(0::int) < 2 ^ ?e" by simp
  ultimately show ?thesis
    unfolding roundDouble_def Let_def by (simp only: split: if_split) linarith
qed

lemma roundDouble_below:
  assumes "0 < mx" "0 \<le> u" "u < 2 ^ 32"
  shows "roundDouble (u * mx) < mx * 2 ^ 32"
proof (cases "excess (u * mx) = 0")
  case True
  have "u * mx < mx * 2 ^ 32" using assms by simp
  moreover have "roundDouble (u * mx) = u * mx"
    using True by (simp add: roundDouble_def)
  ultimately show ?thesis by simp
next
  case False
  let ?e = "excess (u * mx)"
  have "2 ^ 52 * 2 ^ ?e \<le> u * mx" using False by (intro excess_lower) simp
  moreover have "u * mx < 2 ^ 32 * mx" using assms by simp
  ultimately have "2 ^ 32 * (2 ^ 20 * 2 ^ ?e) < 2 ^ 32 * mx"
    by simp
  then have "2 ^ 20 * 2 ^ ?e < mx"
    by (simp only: mult_less_cancel_left_pos [of "2 ^ 32"] zero_less_power zero_less_numeral)
  moreover have "(2::int) ^ ?e \<le> 2 ^ 20 * 2 ^ ?e" by simp
  ultimately have s: "2 ^ ?e < mx" by (rule le_less_trans [rotated])
  have "u * mx \<le> (2 ^ 32 - 1) * mx"
    using assms by (intro mult_right_mono) simp_all
  then have "u * mx + 2 ^ ?e < mx * 2 ^ 32"
    using s by (simp add: algebra_simps)
  then show ?thesis
    using roundDouble_le [of "u * mx"] by linarith
qed

lemma scaled_div: "scaled mx r = roundDouble (uint r * mx) div 2 ^ 32"
proof -
  have "real_of_int (roundDouble (uint r * mx)) / (0xffffffff + 1)
      = real_of_int (roundDouble (uint r * mx)) / real_of_int (2 ^ 32)"
    by simp
  then show ?thesis
    unfolding scaled_def by (simp only: floor_divide_of_int_eq)
qed

lemma scaled_rounded:
  "scaled 2097785 4294785079 = 2097696 \<and> (4294785079 * 2097785) div 2 ^ 32 = (2097695::int)"
  by (simp add: scaled_div roundDouble_def excess.simps)

lemma scaled_exact:
  assumes "mx \<le> 2 ^ 21"
  shows "scaled mx r = (uint r * mx) div 2 ^ 32"
proof -
  have u: "0 \<le> uint r" "uint r < 2 ^ 32"
    using uint_lt2p [of r] by simp_all
  have "uint r * mx \<le> uint r * 2 ^ 21"
    using u assms by (intro mult_left_mono) simp_all
  also have "\<dots> < 2 ^ 32 * 2 ^ 21" using u by simp
  finally have "uint r * mx < 2 ^ 53" by simp
  then show ?thesis by (simp add: scaled_div roundDouble_exact)
qed

subsection \<open>The random index\<close>

lemma le_div_int_iff:
  assumes "0 < (m::int)"
  shows "(v \<le> x div m) = (v * m \<le> x)"
proof -
  have "(v \<le> x div m) = (real_of_int v \<le> real_of_int x / real_of_int m)"
    using le_floor_iff [of v "real_of_int x / real_of_int m"]
    by (simp only: floor_divide_of_int_eq)
  also have "\<dots> = (real_of_int v * real_of_int m \<le> real_of_int x)"
    using assms by (simp add: pos_le_divide_eq)
  also have "\<dots> = (v * m \<le> x)"
    by (simp only: of_int_mult [symmetric] of_int_le_iff)
  finally show ?thesis .
qed

lemma div_less_int_iff:
  assumes "0 < (m::int)"
  shows "(x div m < v) = (x < v * m)"
  using le_div_int_iff [OF assms, of v x] by auto

lemma div_eq_iff: 
  assumes "0 < (m::int)"
  shows "(x div m = v) = (v * m \<le> x \<and> x < (v + 1) * m)"
  using le_div_int_iff [OF assms, of v x] div_less_int_iff [OF assms, of x "v + 1"] by auto

lemma ceil_le:
  assumes "0 < (k::int)"
  shows "(a \<le> r * k) = ((a + k - 1) div k \<le> r)"
proof -
  have "((a + k - 1) div k \<le> r) = ((a + k - 1) div k < r + 1)" by auto
  also have "\<dots> = (a + k - 1 < (r + 1) * k)"
    by (rule div_less_int_iff [OF assms])
  also have "\<dots> = (a \<le> r * k)"
    by (auto simp: algebra_simps)
  finally show ?thesis by simp
qed

lemma ceil_less: 
  assumes "0 < (k::int)"
  shows "(r * k < b) = (r < (b + k - 1) div k)"
  using ceil_le [OF assms, of b r] by auto

lemma uint_image_interval:
  assumes "0 \<le> a" "b \<le> 2 ^ 32"
  shows "uint ` {r :: 32 word. a \<le> uint r \<and> uint r < b} = {a..<b}"
proof (rule set_eqI, rule iffI)
  fix x assume "x \<in> uint ` {r :: 32 word. a \<le> uint r \<and> uint r < b}"
  then obtain r :: "32 word" where "x = uint r" "a \<le> uint r" "uint r < b" by blast
  then show "x \<in> {a..<b}" by simp
next
  fix x assume x: "x \<in> {a..<b}"
  then have x0: "0 \<le> x" and x1: "x < 2 ^ 32" using assms by simp_all
  have tb: "take_bit LENGTH(32) x = x"
    by (rule take_bit_int_eq_self) (use x0 x1 in simp_all)
  have u: "uint (word_of_int x :: 32 word) = x"
    by (simp only: uint_word_of_int_eq tb)
  have "word_of_int x \<in> {r :: 32 word. a \<le> uint r \<and> uint r < b}"
    using x by (simp only: mem_Collect_eq u) simp
  then show "x \<in> uint ` {r :: 32 word. a \<le> uint r \<and> uint r < b}"
    by (rule image_eqI [where f = uint and x = "word_of_int x", OF u [symmetric]])
qed

lemma card_words:
  assumes "0 \<le> a" "b \<le> 2 ^ 32"
  shows "card {r :: 32 word. a \<le> uint r \<and> uint r < b} = nat (b - a)"
proof -
  have "inj_on uint {r :: 32 word. a \<le> uint r \<and> uint r < b}"
    by (rule inj_onI) (simp add: word_uint_eq_iff)
  then have "card (uint ` {r :: 32 word. a \<le> uint r \<and> uint r < b})
      = card {r :: 32 word. a \<le> uint r \<and> uint r < b}"
    by (rule card_image)
  then show ?thesis
    by (simp only: uint_image_interval [OF assms] card_atLeastLessThan_int)
qed

lemma scaled_range:
  assumes "0 < mx"
  shows "0 \<le> scaled mx r \<and> scaled mx r < mx"
proof -
  have u: "0 \<le> uint r" "uint r < 2 ^ 32"
    using uint_lt2p [of r] by simp_all
  have "roundDouble (uint r * mx) < mx * 2 ^ 32"
    by (rule roundDouble_below [OF assms u])
  then have "roundDouble (uint r * mx) div 2 ^ 32 < mx"
    by (simp add: div_less_int_iff)
  moreover have "0 \<le> uint r * mx"
    using u assms by simp
  then have "0 \<le> roundDouble (uint r * mx) div 2 ^ 32"
    using roundDouble_nonneg [of "uint r * mx"] by (simp add: pos_imp_zdiv_nonneg_iff)
  ultimately show ?thesis by (simp add: scaled_div)
qed

lemma draws_eq:
  assumes "0 < mx" "0 \<le> v" "v < mx" "mx \<le> 2 ^ 21"
  shows "draws mx v = nat (cdiv ((v + 1) * 2 ^ 32) mx - cdiv (v * 2 ^ 32) mx)"
proof -
  have "(scaled mx r = v) = (cdiv (v * 2 ^ 32) mx \<le> uint r \<and> uint r < cdiv ((v + 1) * 2 ^ 32) mx)"
    for r :: "32 word"
  proof -
    have "(scaled mx r = v) = (v * 2 ^ 32 \<le> uint r * mx \<and> uint r * mx < (v + 1) * 2 ^ 32)"
      unfolding scaled_exact [OF assms(4)] by (rule div_eq_iff) simp
    also have "\<dots> = (cdiv (v * 2 ^ 32) mx \<le> uint r \<and> uint r < cdiv ((v + 1) * 2 ^ 32) mx)"
      unfolding cdiv_def
      by (simp only: ceil_le [OF assms(1), symmetric] ceil_less [OF assms(1), symmetric])
    finally show ?thesis .
  qed
  then have "{r :: 32 word. scaled mx r = v}
      = {r. cdiv (v * 2 ^ 32) mx \<le> uint r \<and> uint r < cdiv ((v + 1) * 2 ^ 32) mx}"
    by simp
  moreover have "0 \<le> cdiv (v * 2 ^ 32) mx"
    unfolding cdiv_def using assms by (simp add: pos_imp_zdiv_nonneg_iff)
  moreover have "cdiv ((v + 1) * 2 ^ 32) mx \<le> 2 ^ 32"
  proof -
    have "(v + 1) * 2 ^ 32 \<le> mx * 2 ^ 32"
      using assms by simp
    then have "(v + 1) * 2 ^ 32 + mx - 1 < (2 ^ 32 + 1) * mx"
      by (simp add: algebra_simps)
    then have "cdiv ((v + 1) * 2 ^ 32) mx < 2 ^ 32 + 1"
      unfolding cdiv_def by (simp only: div_less_int_iff [OF assms(1)])
    then show ?thesis by simp
  qed
  ultimately show ?thesis
    unfolding draws_def by (simp only: card_words)
qed

lemma cdiv_step:
  assumes "0 < k"
  shows "cdiv (a + m) k - cdiv a k = m div k + ((a + k - 1) mod k + m mod k) div k"
proof -
  have "a + m + k - 1 = (a + k - 1) + m" by simp
  then show ?thesis
    unfolding cdiv_def by (simp only: div_add1_eq [of "a + k - 1" m k])
qed

lemma carry_01:
  assumes "0 < (k::int)"
  shows "(x mod k + y mod k) div k = 0 \<or> (x mod k + y mod k) div k = 1"
proof -
  have "0 \<le> x mod k + y mod k" "x mod k + y mod k < 2 * k"
    using assms pos_mod_sign [of k x] pos_mod_sign [of k y]
      pos_mod_bound [of k x] pos_mod_bound [of k y] by linarith+
  then have "0 \<le> (x mod k + y mod k) div k" "(x mod k + y mod k) div k < 2"
    using assms by (simp_all add: pos_imp_zdiv_nonneg_iff div_less_int_iff)
  then show ?thesis by auto
qed

lemma draws_spread:
  assumes "0 < mx" "0 \<le> v" "v < mx" "mx \<le> 2 ^ 21"
  shows "draws mx v = nat (2 ^ 32 div mx) \<or> draws mx v = nat (2 ^ 32 div mx) + 1"
proof -
  have q: "0 \<le> (2::int) ^ 32 div mx"
    using assms by (simp add: pos_imp_zdiv_nonneg_iff)
  have "(v + 1) * 2 ^ 32 = v * 2 ^ 32 + 2 ^ 32" by (simp add: algebra_simps)
  then have "draws mx v = nat (2 ^ 32 div mx + ((v * 2 ^ 32 + mx - 1) mod mx + 2 ^ 32 mod mx) div mx)"
    using draws_eq [OF assms] cdiv_step [OF assms(1), of "v * 2 ^ 32" "2 ^ 32"] by simp
  then show ?thesis
    using carry_01 [OF assms(1), of "v * 2 ^ 32 + mx - 1" "2 ^ 32"] q
    by (auto simp: nat_add_distrib)
qed

lemma draws_dvd:
  assumes "0 < mx" "0 \<le> v" "v < mx" "mx \<le> 2 ^ 21" "mx dvd 2 ^ 32"
  shows "draws mx v = nat (2 ^ 32 div mx)"
proof -
  have "(v + 1) * 2 ^ 32 = v * 2 ^ 32 + 2 ^ 32" by (simp add: algebra_simps)
  then have "draws mx v = nat (2 ^ 32 div mx + ((v * 2 ^ 32 + mx - 1) mod mx + 2 ^ 32 mod mx) div mx)"
    using draws_eq [OF assms(1-4)] cdiv_step [OF assms(1), of "v * 2 ^ 32" "2 ^ 32"] by simp
  moreover have "(2::int) ^ 32 mod mx = 0"
    using assms(5) by simp
  moreover have "((v * 2 ^ 32 + mx - 1) mod mx) div mx = 0"
    using assms(1) by (simp add: div_pos_pos_trivial)
  ultimately show ?thesis by simp
qed

lemma cdiv_mono:
  assumes "0 < k" "a \<le> b"
  shows "cdiv a k \<le> cdiv b k"
  unfolding cdiv_def using assms by (intro zdiv_mono1) simp_all

lemma draws_int:
  assumes "0 < mx" "0 \<le> v" "v < mx" "mx \<le> 2 ^ 21"
  shows "int (draws mx v) = cdiv ((v + 1) * 2 ^ 32) mx - cdiv (v * 2 ^ 32) mx"
proof -
  have "v * 2 ^ 32 \<le> (v + 1) * 2 ^ 32" by simp
  then have "cdiv (v * 2 ^ 32) mx \<le> cdiv ((v + 1) * 2 ^ 32) mx"
    by (rule cdiv_mono [OF assms(1)])
  then show ?thesis
    unfolding draws_eq [OF assms] by simp
qed

lemma draws_sum:
  assumes "0 < mx" "mx \<le> 2 ^ 21"
  shows "(\<Sum>i<nat mx. int (draws mx (int i))) = 2 ^ 32"
proof -
  let ?f = "\<lambda>i. cdiv (int i * 2 ^ 32) mx"
  have "(\<Sum>i<nat mx. int (draws mx (int i))) = (\<Sum>i<nat mx. ?f (Suc i) - ?f i)"
  proof (rule sum.cong)
    fix i assume "i \<in> {..<nat mx}"
    then have "0 \<le> int i" "int i < mx" by auto
    from draws_int [OF assms(1) this assms(2)]
    show "int (draws mx (int i)) = ?f (Suc i) - ?f i"
      by (simp add: algebra_simps)
  qed simp
  also have "\<dots> = ?f (nat mx) - ?f 0"
    by (rule sum_lessThan_telescope)
  also have "\<dots> = 2 ^ 32"
  proof -
    have "(mx * 2 ^ 32 + mx - 1) div mx = 2 ^ 32 + (mx - 1) div mx"
      using assms div_mult_self4 [of mx "2 ^ 32" "mx - 1"] by (simp add: algebra_simps)
    moreover have "(mx - 1) div mx = 0"
      using assms by (simp add: div_pos_pos_trivial)
    ultimately show ?thesis
      using assms by (simp add: cdiv_def)
  qed
  finally show ?thesis .
qed

lemma draws_uniform_dvd:
  assumes "0 < mx" "mx \<le> 2 ^ 21"
    and "\<forall>v. 0 \<le> v \<and> v < mx \<longrightarrow> draws mx v = q"
  shows "mx dvd 2 ^ 32"
proof -
  have "(\<Sum>i<nat mx. int (draws mx (int i))) = (\<Sum>i<nat mx. int q)"
    using assms(3) by (intro sum.cong) auto
  also have "\<dots> = mx * int q"
    using assms(1) by simp
  finally have "mx * int q = 2 ^ 32"
    using draws_sum [OF assms(1,2)] by simp
  then show ?thesis
    by (metis dvd_triv_left)
qed

lemma excess_mono: "p \<le> p' \<Longrightarrow> excess p \<le> excess p'"
proof (induction p arbitrary: p' rule: excess.induct)
  case (1 p)
  show ?case
  proof (cases "p < 2 ^ 53")
    case True
    then show ?thesis by (simp add: excess_small)
  next
    case False
    then have e: "excess p = Suc (excess (p div 2))"
      by (subst excess.simps) simp
    have "\<not> p' < 2 ^ 53" using False 1(2) by simp
    then have e': "excess p' = Suc (excess (p' div 2))"
      by (subst excess.simps) simp
    have "p div 2 \<le> p' div 2" using 1(2) by simp
    then have "excess (p div 2) \<le> excess (p' div 2)"
      using 1(1) False by simp
    then show ?thesis unfolding e e' by simp
  qed
qed

lemma roundDouble_floor: "p div 2 ^ excess p * 2 ^ excess p \<le> roundDouble p"
  unfolding roundDouble_def Let_def by (simp add: algebra_simps)

lemma roundDouble_ceil: "roundDouble p \<le> (p div 2 ^ excess p + 1) * 2 ^ excess p"
  unfolding roundDouble_def Let_def by (simp add: algebra_simps)

lemma roundDouble_mono:
  assumes "p \<le> p'"
  shows "roundDouble p \<le> roundDouble p'"
proof -
  let ?e = "excess p" and ?e' = "excess p'"
  let ?q = "p div 2 ^ ?e" and ?q' = "p' div 2 ^ ?e'"
  have le: "?e \<le> ?e'" using assms by (rule excess_mono)
  show ?thesis
  proof (cases "?e = ?e'")
    case True
    have qq: "?q \<le> p' div 2 ^ ?e" using assms by (simp add: zdiv_mono1)
    show ?thesis
    proof (cases "?q = p' div 2 ^ ?e")
      case same: True
      have "p = ?q * 2 ^ ?e + p mod 2 ^ ?e" by (rule div_mult_mod_eq [symmetric])
      moreover have "p' = ?q * 2 ^ ?e + p' mod 2 ^ ?e"
        unfolding same by (rule div_mult_mod_eq [symmetric])
      ultimately have r: "p mod 2 ^ ?e \<le> p' mod 2 ^ ?e" using assms by linarith
      have "(0::int) < 2 ^ ?e" by simp
      then show ?thesis
        using r same True unfolding roundDouble_def Let_def
        by (auto simp: algebra_simps)
    next
      case False
      then have "?q + 1 \<le> p' div 2 ^ ?e" using qq by simp
      then have c: "(?q + 1) * 2 ^ ?e \<le> p' div 2 ^ ?e * 2 ^ ?e"
        by (intro mult_right_mono) simp_all
      have "roundDouble p \<le> (?q + 1) * 2 ^ ?e"
        by (rule roundDouble_ceil)
      also note c
      also have "p' div 2 ^ ?e * 2 ^ ?e \<le> roundDouble p'"
        unfolding True by (rule roundDouble_floor)
      finally show ?thesis .
    qed
  next
    case False
    then have lt: "Suc ?e \<le> ?e'" using le by simp
    then have pos: "0 < ?e'" by simp
    have "p < 2 ^ 53 * 2 ^ ?e" by (rule excess_upper)
    then have "?q < 2 ^ 53" by (simp add: div_less_int_iff)
    then have "(?q + 1) * 2 ^ ?e \<le> 2 ^ 53 * 2 ^ ?e"
      by (intro mult_right_mono) simp_all
    then have a: "roundDouble p \<le> 2 ^ 53 * 2 ^ ?e"
      using roundDouble_ceil [of p] by linarith
    have "2 ^ 52 * 2 ^ ?e' \<le> p'" using pos by (rule excess_lower)
    then have "2 ^ 52 \<le> ?q'" by (simp add: le_div_int_iff)
    then have "2 ^ 52 * 2 ^ ?e' \<le> ?q' * 2 ^ ?e'"
      by (intro mult_right_mono) simp_all
    then have b: "2 ^ 52 * 2 ^ ?e' \<le> roundDouble p'"
      using roundDouble_floor [of p'] by linarith
    have "(2::int) ^ Suc ?e \<le> 2 ^ ?e'"
      using lt by (intro power_increasing) simp_all
    then have "(2::int) ^ 53 * 2 ^ ?e \<le> 2 ^ 52 * 2 ^ ?e'" by simp
    then show ?thesis using a b by linarith
  qed
qed

lemma scaled_mono:
  assumes "0 \<le> mx" "uint r \<le> uint r'"
  shows "scaled mx r \<le> scaled mx r'"
proof -
  have "uint r * mx \<le> uint r' * mx"
    using assms by (intro mult_right_mono)
  then have "roundDouble (uint r * mx) \<le> roundDouble (uint r' * mx)"
    by (rule roundDouble_mono)
  then show ?thesis
    unfolding scaled_div by (rule zdiv_mono1) simp
qed

lemma draws_between:
  assumes mx: "0 \<le> mx"
    and lo: "scaled mx a0 < v" "scaled mx a = v" "uint a = uint a0 + 1"
    and hi: "scaled mx b = v" "v < scaled mx b1" "uint b1 = uint b + 1"
  shows "draws mx v = nat (uint b1 - uint a)"
proof -
  have "(scaled mx r = v) = (uint a \<le> uint r \<and> uint r < uint b1)" for r
  proof
    assume s: "scaled mx r = v"
    have "\<not> uint r \<le> uint a0"
      using scaled_mono [OF mx, of r a0] s lo(1) by auto
    moreover have "\<not> uint b1 \<le> uint r"
      using scaled_mono [OF mx, of b1 r] s hi(2) by auto
    ultimately show "uint a \<le> uint r \<and> uint r < uint b1"
      using lo(3) by simp
  next
    assume "uint a \<le> uint r \<and> uint r < uint b1"
    then have "uint a \<le> uint r" "uint r \<le> uint b" using hi(3) by simp_all
    then show "scaled mx r = v"
      using scaled_mono [OF mx, of a r] scaled_mono [OF mx, of r b] lo(2) hi(1) by simp
  qed
  then have "{r :: 32 word. scaled mx r = v} = {r. uint a \<le> uint r \<and> uint r < uint b1}"
    by simp
  moreover have "0 \<le> uint a" by simp
  moreover have "uint b1 \<le> 2 ^ 32"
    using uint_lt2p [of b1] by simp
  ultimately show ?thesis
    unfolding draws_def by (simp only: card_words)
qed

lemma scaled_1073741815:
  "scaled 1073741815 1073741828 = 268435454"
  "scaled 1073741815 1073741829 = 268435455"
  "scaled 1073741815 1073741833 = 268435455"
  "scaled 1073741815 1073741834 = 268435456"
  "scaled 1073741815 1073741836 = 268435456"
  "scaled 1073741815 1073741837 = 268435457"
  by (simp_all add: scaled_div roundDouble_def excess.simps)

lemma draws_1073741815:
  "draws 1073741815 268435455 = 5" "draws 1073741815 268435456 = 3"
proof -
  show "draws 1073741815 268435455 = 5"
    using draws_between [of 1073741815 1073741828 268435455 1073741829 1073741833 1073741834]
    by (simp add: scaled_1073741815)
  show "draws 1073741815 268435456 = 3"
    using draws_between [of 1073741815 1073741833 268435456 1073741834 1073741836 1073741837]
    by (simp add: scaled_1073741815)
qed

text \<open>
  C1, as the code has it. For every bound \<open>N \<ge> 1\<close>, \<open>rng.index(N)\<close> returns the scaled
  raw word, an integer in \<open>[0, N)\<close>. For every bound up to \<open>2 ^ 21\<close>, where the product
  of the doubles is exact, each value \<open>v\<close> in \<open>[0, N)\<close> is produced by \<open>2 ^ 32 div N\<close>
  of the \<open>2 ^ 32\<close> raw words or by one more, so two values differ by at most one raw
  word; all values have the same number exactly when \<open>N\<close> divides \<open>2 ^ 32\<close>. For the
  bound 0 the result is 0.
\<close>

theorem index_range_and_spread:
  assumes "1 \<le> N"
  shows "fst (index N c) = scaled N (shd (randomValues c))
       \<and> 0 \<le> fst (index N c) \<and> fst (index N c) < N
       \<and> (N \<le> 2 ^ 21 \<longrightarrow>
            (\<forall>v. 0 \<le> v \<and> v < N \<longrightarrow>
               draws N v = nat (2 ^ 32 div N) \<or> draws N v = nat (2 ^ 32 div N) + 1)
          \<and> ((\<forall>v w. 0 \<le> v \<and> v < N \<and> 0 \<le> w \<and> w < N \<longrightarrow> draws N v = draws N w)
               \<longleftrightarrow> N dvd 2 ^ 32))
       \<and> fst (index 0 c) = 0"
proof -
  have pos: "0 < N" using assms by simp
  have val: "fst (index N c) = scaled N (shd (randomValues c))"
    using pos by (simp add: index_def getRandomValues_def)
  have rng: "0 \<le> fst (index N c) \<and> fst (index N c) < N"
    unfolding val by (rule scaled_range [OF pos])
  have spr: "\<forall>v. 0 \<le> v \<and> v < N \<longrightarrow>
      draws N v = nat (2 ^ 32 div N) \<or> draws N v = nat (2 ^ 32 div N) + 1"
    if le: "N \<le> 2 ^ 21"
  proof (intro allI impI)
    fix v assume v: "0 \<le> v \<and> v < N"
    from v have "0 \<le> v" "v < N" by blast+
    then show "draws N v = nat (2 ^ 32 div N) \<or> draws N v = nat (2 ^ 32 div N) + 1"
      using le by (intro draws_spread [OF pos])
  qed
  have dv: "(\<forall>v w. 0 \<le> v \<and> v < N \<and> 0 \<le> w \<and> w < N \<longrightarrow> draws N v = draws N w)
      \<longleftrightarrow> N dvd 2 ^ 32"
    if le: "N \<le> 2 ^ 21"
  proof
    assume u: "\<forall>v w. 0 \<le> v \<and> v < N \<and> 0 \<le> w \<and> w < N \<longrightarrow> draws N v = draws N w"
    have "\<forall>v. 0 \<le> v \<and> v < N \<longrightarrow> draws N v = draws N 0"
    proof (intro allI impI)
      fix v assume v: "0 \<le> v \<and> v < N"
      have "0 \<le> v \<and> v < N \<and> 0 \<le> (0::int) \<and> 0 < N"
        using v pos by blast
      with u show "draws N v = draws N 0" by blast
    qed
    then show "N dvd 2 ^ 32"
      by (rule draws_uniform_dvd [OF pos le])
  next
    assume d: "N dvd 2 ^ 32"
    show "\<forall>v w. 0 \<le> v \<and> v < N \<and> 0 \<le> w \<and> w < N \<longrightarrow> draws N v = draws N w"
    proof (intro allI impI)
      fix v w assume a: "0 \<le> v \<and> v < N \<and> 0 \<le> w \<and> w < N"
      from a have v: "0 \<le> v" "v < N" and w: "0 \<le> w" "w < N" by blast+
      have "draws N v = nat (2 ^ 32 div N)"
        by (rule draws_dvd [OF pos v le d])
      moreover have "draws N w = nat (2 ^ 32 div N)"
        by (rule draws_dvd [OF pos w le d])
      ultimately show "draws N v = draws N w" by (rule trans [OF _ sym])
    qed
  qed
  have z: "fst (index 0 c) = 0"
    by (simp add: index_def)
  show ?thesis using val rng spr dv z by blast
qed

theorem index_range_and_spread_witness:
  "(1::int) \<le> 3 \<and> (3::int) \<le> 2 ^ 21
   \<and> fst (index 3 (entropy [0x80000000])) = 1
   \<and> (draws 3 2 = 1431655765 \<or> draws 3 2 = 1431655766)
   \<and> fst (index 0 (entropy [0x80000000])) = 0"
proof -
  have h: "(1::int) \<le> 3" by simp
  have l: "(3::int) \<le> 2 ^ 21" by simp
  note t = index_range_and_spread [OF h, of "entropy [0x80000000]"]
  have s: "scaled 3 (0x80000000 :: 32 word) = 1"
    by (simp add: scaled_exact)
  have "fst (index 3 (entropy [0x80000000])) = scaled 3 (shd (randomValues (entropy [0x80000000])))"
    using t by blast
  then have a: "fst (index 3 (entropy [0x80000000])) = 1"
    using s by (simp add: entropy_def)
  have "\<forall>v. 0 \<le> v \<and> v < 3 \<longrightarrow>
      draws 3 v = nat (2 ^ 32 div 3) \<or> draws 3 v = nat (2 ^ 32 div 3) + 1"
    using t l by blast
  then have "draws 3 2 = nat (2 ^ 32 div 3) \<or> draws 3 2 = nat (2 ^ 32 div 3) + 1"
    by simp
  then have b: "draws 3 2 = 1431655765 \<or> draws 3 2 = 1431655766"
    by simp
  have z: "fst (index 0 (entropy [0x80000000])) = 0"
    using t by blast
  show ?thesis using h l a b z by blast
qed

text \<open>
  C1 as stated fails at the bound 3: the value 0 is produced by one raw word more than
  the value 1. Above \<open>2 ^ 21\<close>, where the product of the doubles is rounded, two values
  can differ by two raw words: at the bound 1073741815, which goes 4 times into
  \<open>2 ^ 32\<close>, the value 268435455 is produced by 5 raw words and the next value by 3.
\<close>

theorem index_uniform_counterexample:
  "draws 3 0 = 1431655766 \<and> draws 3 1 = 1431655765
   \<and> draws 1073741815 268435455 = 5 \<and> draws 1073741815 268435456 = 3"
  by (simp add: draws_eq cdiv_def draws_1073741815)

text \<open>
  C10: \<open>rng.index(max)\<close> returns 0 for every \<open>max \<le> 0\<close> and leaves the entropy source
  as it was; whatever the argument, the result is not negative, and it is below a
  positive \<open>max\<close>.
\<close>

theorem index_nonpositive_zero:
  "(mx \<le> 0 \<longrightarrow> index mx c = (0, c))
   \<and> 0 \<le> fst (index mx c)
   \<and> (0 < mx \<longrightarrow> fst (index mx c) < mx)"
proof (cases "mx \<le> 0")
  case True
  then show ?thesis by (simp add: index_def)
next
  case False
  then have pos: "0 < mx" by simp
  then show ?thesis
    using scaled_range [OF pos, of "shd (randomValues c)"]
    by (simp add: index_def getRandomValues_def)
qed

theorem index_nonpositive_zero_witness:
  "index (- 5) (entropy [7]) = (0, entropy [7])
   \<and> index 0 (entropy [7]) = (0, entropy [7])
   \<and> fst (index 2 (entropy [0xffffffff])) = 1"
proof -
  have s: "scaled 2 (0xffffffff :: 32 word) = 1"
    by (simp add: scaled_exact)
  have a: "index (- 5) (entropy [7]) = (0, entropy [7])"
    using index_nonpositive_zero [of "- 5" "entropy [7]"] by simp
  have b: "index 0 (entropy [7]) = (0, entropy [7])"
    using index_nonpositive_zero [of 0 "entropy [7]"] by simp
  have c: "fst (index 2 (entropy [0xffffffff])) = 1"
    using s by (simp add: index_def getRandomValues_def entropy_def)
  show ?thesis using a b c by simp
qed

subsection \<open>The history\<close>

lemma take20_Cons_take20: "take 20 (e # take 20 xs) = take 20 (e # xs)"
  by (simp add: take_Cons')

lemma history_foldl_addHistory:
  "history (foldl (\<lambda>d e. addHistory e d) d es) =
     (if es = [] then history d else take 20 (rev es @ history d))"
proof (induction es rule: rev_induct)
  case Nil
  then show ?case by simp
next
  case (snoc e es)
  show ?case
  proof (cases "es = []")
    case True
    then show ?thesis by (simp add: addHistory_def)
  next
    case False
    with snoc have "history (foldl (\<lambda>d e. addHistory e d) d es) = take 20 (rev es @ history d)"
      by simp
    then have "history (foldl (\<lambda>d e. addHistory e d) d (es @ [e]))
        = take 20 (e # take 20 (rev es @ history d))"
      by (simp add: addHistory_def)
    then show ?thesis
      by (simp only: take20_Cons_take20) simp
  qed
qed

text \<open>
  C9: \<open>addHistory\<close> puts the entry in front and keeps the first 20. After any sequence
  of calls, from any store, the history is the entries of the calls, the latest first,
  followed by the entries that were there, cut at 20; from the store as it is loaded
  its length is at most 20 after any number of calls.
\<close>

theorem addHistory_front_bounded:
  "history (addHistory e d) = take 20 (e # history d)
   \<and> length (history (addHistory e d)) \<le> 20
   \<and> history (foldl (\<lambda>d e. addHistory e d) d es) =
       (if es = [] then history d else take 20 (rev es @ history d))
   \<and> length (history (foldl (\<lambda>d e. addHistory e d) initialData es)) \<le> 20"
proof -
  have a: "history (addHistory e d) = take 20 (e # history d)"
    by (simp add: addHistory_def)
  have b: "length (history (addHistory e d)) \<le> 20"
    unfolding a by simp
  have c: "length (history (foldl (\<lambda>d e. addHistory e d) initialData es)) \<le> 20"
    unfolding history_foldl_addHistory by (simp add: initialData_def)
  show ?thesis using a b c history_foldl_addHistory by blast
qed

theorem addHistory_front_bounded_witness:
  "history (foldl (\<lambda>d e. addHistory e d) initialData
      [\<lparr>ekey = ''a'', ts = ''t1'', eid = JStr ''1''\<rparr>, \<lparr>ekey = ''b'', ts = ''t2'', eid = JStr ''2''\<rparr>])
   = [\<lparr>ekey = ''b'', ts = ''t2'', eid = JStr ''2''\<rparr>, \<lparr>ekey = ''a'', ts = ''t1'', eid = JStr ''1''\<rparr>]"
  using addHistory_front_bounded
    [of "\<lparr>ekey = ''a'', ts = ''t1'', eid = JStr ''1''\<rparr>" initialData
        "[\<lparr>ekey = ''a'', ts = ''t1'', eid = JStr ''1''\<rparr>, \<lparr>ekey = ''b'', ts = ''t2'', eid = JStr ''2''\<rparr>]"]
  by (simp add: initialData_def)

subsection \<open>The absence set\<close>

lemma set_foldl_set_add: "set (foldl (\<lambda>s x. set_add x s) acc xs) = set acc \<union> set xs"
  by (induction xs arbitrary: acc) (auto simp: set_add_def)

lemma set_new_Set [simp]: "set (new_Set xs) = set xs"
  by (simp add: new_Set_def set_foldl_set_add)

lemma set_set_add [simp]: "set (set_add x s) = insert x (set s)"
  by (auto simp: set_add_def)

lemma set_set_delete [simp]: "set (set_delete x s) = set s - {x}"
  by (auto simp: set_delete_def)

lemma absentValid_iff: "absentValid d \<longleftrightarrow> set (absentKeys d) \<subseteq> key ` set (names d)"
  by (auto simp: absentValid_def list_all_iff)

lemma sanitizeNames_seen:
  "sanitizeNames B items acc seen c = (Inr (ns, sk), c') \<Longrightarrow> set seen = key ` set acc
    \<Longrightarrow> set sk = key ` set ns"
proof (induction B items acc seen c rule: sanitizeNames.induct)
  case (1 B sanitizedNames seenKeys c)
  then show ?case by simp
next
  case (2 B item items sanitizedNames seenKeys c)
  then show ?case
    by (auto simp: Let_def split: if_splits prod.splits)
qed

lemma filterAbsent_subset: "set (filterAbsent seen xs) \<subseteq> set seen"
  by (auto simp: filterAbsent_def split: json.splits if_splits)

lemma importPayload_absent:
  assumes "importPayload B j c = (Inr p, c')"
  shows "set (absentKeys p) \<subseteq> key ` set (names p)"
proof -
  from assms obtain parsed ns sk c1 mapped where
    s: "sanitizeNames B (arrayOr (getProp parsed ''names'')) [] [] c = (Inr (ns, sk), c1)"
    and n: "names p = ns"
    and a: "absentKeys p = filterAbsent sk (arrayOr (getProp parsed ''absentKeys''))"
    by (auto simp: importPayload_def Let_def split: sum.splits if_splits prod.splits)
  from sanitizeNames_seen [OF s] have "set sk = key ` set ns" by simp
  with n a filterAbsent_subset [of sk] show ?thesis by simp
qed

text \<open>
  C4, as the code has it. \<open>setNames\<close> establishes the Absence Set invariant whatever
  the store held, and so do \<open>clearAbsent\<close> and \<open>updateFromStorage\<close> on the payload of
  an import; on any payload \<open>updateFromStorage\<close> installs the absence keys as they come,
  so the store has the invariant exactly when the payload has it. On a store that
  satisfies it, \<open>toggleAbsent(key, false)\<close>, \<open>addHistory\<close>,
  \<open>resetHistory\<close>, \<open>setSettings\<close> and \<open>setClassKey\<close> keep it, and
  \<open>toggleAbsent(key, true)\<close>, which adds the key without looking at the roster, keeps
  it exactly when the key is the key of a roster entry.
\<close>

theorem absence_invariant:
  "absentValid (setNames newNames d)
   \<and> absentValid (clearAbsent d)
   \<and> absentValid initialData
   \<and> (importPayload B j c = (Inr p, c') \<longrightarrow> absentValid (updateFromStorage p d))
   \<and> (absentValid (updateFromStorage q d) \<longleftrightarrow> absentValid q)
   \<and> (absentValid d \<longrightarrow>
        absentValid (toggleAbsent k False d)
      \<and> (absentValid (toggleAbsent k True d) \<longleftrightarrow> k \<in> key ` set (names d))
      \<and> absentValid (addHistory e d)
      \<and> absentValid (resetHistory d)
      \<and> absentValid (setSettings partial d)
      \<and> absentValid (setClassKey ck d))"
proof -
  have a: "absentValid (setNames newNames d)"
    by (auto simp: absentValid_iff setNames_def Let_def)
  have b: "absentValid (clearAbsent d)" "absentValid initialData"
    by (simp_all add: absentValid_iff clearAbsent_def initialData_def)
  have c: "importPayload B j c = (Inr p, c') \<longrightarrow> absentValid (updateFromStorage p d)"
    using importPayload_absent [of B j c p c']
    by (auto simp: absentValid_iff updateFromStorage_def)
  have u: "absentValid (updateFromStorage q d) \<longleftrightarrow> absentValid q"
    by (simp add: absentValid_iff updateFromStorage_def)
  have d: "absentValid d \<longrightarrow>
        absentValid (toggleAbsent k False d)
      \<and> (absentValid (toggleAbsent k True d) \<longleftrightarrow> k \<in> key ` set (names d))
      \<and> absentValid (addHistory e d)
      \<and> absentValid (resetHistory d)
      \<and> absentValid (setSettings partial d)
      \<and> absentValid (setClassKey ck d)"
    by (auto simp: absentValid_iff toggleAbsent_def addHistory_def resetHistory_def
        setSettings_def setClassKey_def)
  show ?thesis using a b c u d by blast
qed

text \<open>
  C4 as stated fails: on the store as it is loaded, \<open>toggleAbsent\<close> on a key that no
  roster entry has leaves that key in the absence set.
\<close>

theorem absence_invariant_counterexample:
  "absentValid initialData
   \<and> absentKeys (toggleAbsent ''ghost'' True initialData) = [''ghost'']
   \<and> names (toggleAbsent ''ghost'' True initialData) = []
   \<and> \<not> absentValid (toggleAbsent ''ghost'' True initialData)"
  by (simp add: absentValid_def toggleAbsent_def initialData_def set_add_def)

theorem absence_invariant_witness:
  "absentKeys (setNames [\<lparr>raw = ''Anna'', key = ''anna''\<rparr>] (toggleAbsent ''ghost'' True initialData)) = []
   \<and> absentValid (setNames [\<lparr>raw = ''Anna'', key = ''anna''\<rparr>] (toggleAbsent ''ghost'' True initialData))
   \<and> absentValid (toggleAbsent ''anna'' True (setNames [\<lparr>raw = ''Anna'', key = ''anna''\<rparr>] initialData))"
proof -
  let ?d = "setNames [\<lparr>raw = ''Anna'', key = ''anna''\<rparr>] initialData"
  have v: "absentValid ?d"
    using absence_invariant [of "[\<lparr>raw = ''Anna'', key = ''anna''\<rparr>]" initialData] by blast
  have k: "''anna'' \<in> key ` set (names ?d)"
    by (simp add: setNames_def initialData_def)
  have t: "absentValid (toggleAbsent ''anna'' True ?d)"
    using absence_invariant [of "[]" ?d ascii None "entropy []" _ _ _ "''anna''"] v k by blast
  have g: "absentValid (setNames [\<lparr>raw = ''Anna'', key = ''anna''\<rparr>] (toggleAbsent ''ghost'' True initialData))"
    using absence_invariant [of "[\<lparr>raw = ''Anna'', key = ''anna''\<rparr>]" "toggleAbsent ''ghost'' True initialData"]
    by blast
  have e: "absentKeys (setNames [\<lparr>raw = ''Anna'', key = ''anna''\<rparr>] (toggleAbsent ''ghost'' True initialData)) = []"
    by (simp add: setNames_def toggleAbsent_def initialData_def set_add_def new_Set_def)
  show ?thesis using e g t by simp
qed

subsection \<open>A rejected import\<close>

lemma handleJsonFileChange_failed:
  "importPayload B j c = (Inl err, c') \<Longrightarrow> handleJsonFileChange B j u c = (u, c', Some err)"
  by (simp add: handleJsonFileChange_def)

text \<open>
  C8: an imported document (an object or an array) whose \<open>version\<close> is not the number 1,
  or is missing, makes \<open>parse\<close> and \<open>importPayload\<close> fail with the error for an
  unsupported version, before any random value is drawn; the import handler reports it
  and returns the \<open>ui\<close>, with the store in it, as it was.
\<close>

theorem import_version_rejected:
  assumes "isObject doc"
    and "getProp doc ''version'' \<noteq> Some (JNum (Finite APP_VERSION))"
  shows "parse (Some doc) = Inl (UnsupportedVersion (getProp doc ''version''))
       \<and> importPayload B (Some doc) c = (Inl (UnsupportedVersion (getProp doc ''version'')), c)
       \<and> handleJsonFileChange B (Some doc) u c
           = (u, c, Some (UnsupportedVersion (getProp doc ''version'')))"
proof -
  have p: "parse (Some doc) = Inl (UnsupportedVersion (getProp doc ''version''))"
    using assms by (simp add: parse_def)
  then have i: "importPayload B (Some doc) c = (Inl (UnsupportedVersion (getProp doc ''version'')), c)"
    by (simp add: importPayload_def)
  from i have "handleJsonFileChange B (Some doc) u c
      = (u, c, Some (UnsupportedVersion (getProp doc ''version'')))"
    by (rule handleJsonFileChange_failed)
  with p i show ?thesis by simp
qed

theorem import_version_rejected_witness:
  "handleJsonFileChange ascii
     (Some (JObj [(''version'', JNum (Finite 0)),
                  (''names'', JArr [JObj [(''raw'', JStr ''Eva''), (''key'', JStr ''eva'')]])]))
     (idleUi (setNames [\<lparr>raw = ''Anna'', key = ''anna''\<rparr>] initialData)) (entropy [])
   = (idleUi (setNames [\<lparr>raw = ''Anna'', key = ''anna''\<rparr>] initialData), entropy [],
      Some (UnsupportedVersion (Some (JNum (Finite 0)))))"
proof -
  let ?doc = "JObj [(''version'', JNum (Finite 0)),
                  (''names'', JArr [JObj [(''raw'', JStr ''Eva''), (''key'', JStr ''eva'')]])]"
  have a: "isObject ?doc" by simp
  have b: "getProp ?doc ''version'' \<noteq> Some (JNum (Finite APP_VERSION))"
    by (simp add: APP_VERSION_def)
  have v: "getProp ?doc ''version'' = Some (JNum (Finite 0))" by simp
  show ?thesis
    using import_version_rejected [OF a b, of ascii "entropy []"
        "idleUi (setNames [\<lparr>raw = ''Anna'', key = ''anna''\<rparr>] initialData)"]
    by (simp only: v)
qed

subsection \<open>The settings of an import\<close>

lemma importSettings_modes:
  "reducedMotionMode (importSettings B parsed) \<in> set [''auto'', ''on'', ''off'']
   \<and> theme (importSettings B parsed) \<in> set [''auto'', ''light'', ''dark'']"
  by (simp add: importSettings_def Let_def DEFAULT_SETTINGS_def split: option.splits json.splits)

text \<open>
  C3 at the document \<open>{"version": 1, "settings": {"spinMs": 50}}\<close>: the import keeps
  \<open>spinMs = 50\<close>, below 500, where the claim has the default 2600.
\<close>

theorem import_spinMs_out_of_range:
  "fst (importPayload ascii
     (Some (JObj [(''version'', JNum (Finite 1)),
                  (''settings'', JObj [(''spinMs'', JNum (Finite 50))])]))
     (entropy []))
   = Inr \<lparr>classKey = JStr ''trida-1'', names = [], absentKeys = [], history = [],
          settings = \<lparr>spinMs = 50, reducedMotionMode = ''auto'', theme = ''auto''\<rparr>,
          version = 1\<rparr>"
  by (simp add: importPayload_def parse_def migrate_def APP_VERSION_def arrayOr_def
      filterAbsent_def filterHistory_def importSettings_def spread_def nullish_def
      defaultSettingsProps_def DEFAULT_SETTINGS_def DEFAULT_CLASS_KEY_def Number_def)

subsection \<open>The draw\<close>

lemma handleDraw_in_progress:
  "isDrawing u \<or> spinning u \<Longrightarrow> handleDraw now u c = (u, c)"
  by (simp add: handleDraw_def)

lemma handleDraw_nobody_present:
  "\<not> isDrawing u \<Longrightarrow> getPresentNames (store u) = [] \<Longrightarrow> handleDraw now u c = (u, c)"
  by (simp add: handleDraw_def getPresentNames_def Let_def)

lemma oneName_eq:
  "oneName =
     \<lparr>store = \<lparr>classKey = JStr ''trida-1'', names = [\<lparr>raw = ''Anna'', key = ''anna''\<rparr>],
               absentKeys = [], history = [],
               settings = \<lparr>spinMs = 2600, reducedMotionMode = ''auto'', theme = ''auto''\<rparr>\<rparr>,
      lastWinnerKey = None, isHydrating = False, isDrawing = False,
      currentReduced = False, drawBtnDisabled = True, locked = False, spinning = False,
      currentNames = [\<lparr>raw = ''Anna'', key = ''anna''\<rparr>], pendingIndex = None\<rparr>"
  by (simp add: oneName_def idleUi_def notify_def setNames_def initialData_def
      getPresentNames_def updateButtons_def new_Set_def DEFAULT_SETTINGS_def
      DEFAULT_CLASS_KEY_def Let_def)

lemma oneName_Enter:
  "handleKeyboard False ''Enter'' t oneName (entropy [7])
   = (oneName\<lparr>isDrawing := True, drawBtnDisabled := True, locked := True, spinning := True,
               pendingIndex := Some 0\<rparr>, entropy [])"
  by (simp add: oneName_eq handleKeyboard_def handleDraw_def Let_def index_def
      getRandomValues_def entropy_def scaled_exact lockInteractions_def
      shouldReduceMotion_def spinTo_def)

text \<open>
  C2 with one present name. The draw button is disabled and a click does nothing; the
  key Enter, with the focus outside a field, starts a draw all the same, and when the
  wheel's transition ends the only name is recorded in the history.
\<close>

theorem draw_with_single_name:
  "getPresentNames (store oneName) = [\<lparr>raw = ''Anna'', key = ''anna''\<rparr>]
   \<and> drawBtnDisabled oneName
   \<and> clickDraw ''2024-01-01T10:00:00.000Z'' oneName (entropy [7]) = (oneName, entropy [7])
   \<and> history (store oneName) = []
   \<and> history (store (fst
        (case handleKeyboard False ''Enter'' ''2024-01-01T10:00:00.000Z'' oneName (entropy [7]) of
           (u, c) \<Rightarrow> onTransitionEnd ''2024-01-01T10:00:03.000Z'' u c)))
       = [\<lparr>ekey = ''anna'', ts = ''2024-01-01T10:00:03.000Z'',
           eid = JStr ''00000000-0000-4000-8000-000000000000''\<rparr>]"
proof -
  have a: "getPresentNames (store oneName) = [\<lparr>raw = ''Anna'', key = ''anna''\<rparr>]"
    "drawBtnDisabled oneName" "history (store oneName) = []"
    by (simp_all add: oneName_eq getPresentNames_def)
  have b: "clickDraw ''2024-01-01T10:00:00.000Z'' oneName (entropy [7]) = (oneName, entropy [7])"
    using a(2) by (simp add: clickDraw_def)
  have c: "history (store (fst
        (case handleKeyboard False ''Enter'' ''2024-01-01T10:00:00.000Z'' oneName (entropy [7]) of
           (u, c) \<Rightarrow> onTransitionEnd ''2024-01-01T10:00:03.000Z'' u c)))
       = [\<lparr>ekey = ''anna'', ts = ''2024-01-01T10:00:03.000Z'',
           eid = JStr ''00000000-0000-4000-8000-000000000000''\<rparr>]"
    unfolding oneName_Enter
    by (simp add: oneName_eq onTransitionEnd_def handleDrawResume_def at_index_def
        lockInteractions_def updateButtons_def randomUUID_def entropy_def notify_def
        addHistory_def getPresentNames_def Let_def)
  show ?thesis using a b c by simp
qed

subsection \<open>Keys\<close>

lemma set_replaceRuns: "set (replaceRuns p r s) \<subseteq> insert r {c \<in> set s. \<not> p c}"
proof (induction p r s rule: replaceRuns.induct)
  case (1 p r)
  then show ?case by simp
next
  case (2 p r c cs)
  show ?case
  proof (cases "p c")
    case True
    with 2 have "set (replaceRuns p r (dropWhile p cs)) \<subseteq> insert r {c \<in> set (dropWhile p cs). \<not> p c}"
      by simp
    moreover have "set (dropWhile p cs) \<subseteq> set cs"
      by (auto dest: set_dropWhileD)
    ultimately show ?thesis using True by auto
  next
    case False
    with 2 show ?thesis by auto
  qed
qed

lemma noDoubleDash_Cons_other: "a \<noteq> CHR ''-'' \<Longrightarrow> noDoubleDash (a # xs) = noDoubleDash xs"
  by (cases xs) simp_all

lemma noDoubleDash_tl: "noDoubleDash (a # xs) \<Longrightarrow> noDoubleDash xs"
  by (cases xs) simp_all

lemma noDoubleDash_replaceRuns:
  "noDoubleDash (replaceRuns (\<lambda>c. c = CHR ''-'') (CHR ''-'') s)"
proof (induction "\<lambda>c. c = CHR ''-''" "CHR ''-''" s rule: replaceRuns.induct)
  case 1
  then show ?case by simp
next
  case (2 c cs)
  show ?case
  proof (cases "c = CHR ''-''")
    case True
    let ?rest = "dropWhile (\<lambda>c. c = CHR ''-'') cs"
    from 2 True have ih: "noDoubleDash (replaceRuns (\<lambda>c. c = CHR ''-'') (CHR ''-'') ?rest)"
      by simp
    have step: "replaceRuns (\<lambda>c. c = CHR ''-'') (CHR ''-'') (c # cs)
        = CHR ''-'' # replaceRuns (\<lambda>c. c = CHR ''-'') (CHR ''-'') ?rest"
      using True by simp
    show ?thesis
    proof (cases ?rest)
      case Nil
      show ?thesis unfolding step Nil by simp
    next
      case (Cons d ds)
      then have "d \<noteq> CHR ''-''"
        using hd_dropWhile [of "\<lambda>c. c = CHR ''-''" cs] by auto
      with ih show ?thesis unfolding step Cons by simp
    qed
  next
    case False
    with 2 show ?thesis by (simp add: noDoubleDash_Cons_other)
  qed
qed

lemma noDoubleDash_butlast: "noDoubleDash xs \<Longrightarrow> noDoubleDash (butlast xs)"
  by (induction xs rule: noDoubleDash.induct) (auto split: if_splits)

lemma noDoubleDash_hd: "noDoubleDash (CHR ''-'' # xs) \<Longrightarrow> xs \<noteq> [] \<Longrightarrow> hd xs \<noteq> CHR ''-''"
  by (cases xs) auto

lemma noDoubleDash_last:
  "noDoubleDash xs \<Longrightarrow> last xs = CHR ''-'' \<Longrightarrow> butlast xs \<noteq> [] \<Longrightarrow> last (butlast xs) \<noteq> CHR ''-''"
  by (induction xs rule: noDoubleDash.induct) (auto split: if_splits)

lemma hd_butlast: "butlast xs \<noteq> [] \<Longrightarrow> hd (butlast xs) = hd xs"
  by (cases xs) (auto split: if_splits)

lemma stripEdgeDashes_form:
  assumes "noDoubleDash s"
  shows "noDoubleDash (stripEdgeDashes s) \<and> set (stripEdgeDashes s) \<subseteq> set s
       \<and> (stripEdgeDashes s \<noteq> [] \<longrightarrow>
            hd (stripEdgeDashes s) \<noteq> CHR ''-'' \<and> last (stripEdgeDashes s) \<noteq> CHR ''-'')"
proof -
  define s1 where "s1 = (case s of [] \<Rightarrow> [] | c # cs \<Rightarrow> if c = CHR ''-'' then cs else s)"
  have s1: "noDoubleDash s1" "set s1 \<subseteq> set s" "s1 \<noteq> [] \<longrightarrow> hd s1 \<noteq> CHR ''-''"
    using assms unfolding s1_def
    by (auto split: list.splits dest: noDoubleDash_tl noDoubleDash_hd)
  have e: "stripEdgeDashes s = (if s1 \<noteq> [] \<and> last s1 = CHR ''-'' then butlast s1 else s1)"
    by (simp add: stripEdgeDashes_def s1_def)
  show ?thesis
  proof (cases "s1 \<noteq> [] \<and> last s1 = CHR ''-''")
    case True
    then have r: "stripEdgeDashes s = butlast s1" using e by simp
    have "set (butlast s1) \<subseteq> set s1" by (auto dest: in_set_butlastD)
    then show ?thesis
      unfolding r using s1 True
      by (auto simp: noDoubleDash_butlast hd_butlast dest: noDoubleDash_last)
  next
    case False
    then have r: "stripEdgeDashes s = s1" using e by auto
    show ?thesis unfolding r using s1 False by auto
  qed
qed

lemma slug_form: "slug B r \<noteq> [] \<Longrightarrow> slugForm (slug B r)"
proof -
  assume ne: "slug B r \<noteq> []"
  define lower where "lower = toLocaleLowerCase B (removeDiacritic B (normalizeNFKD B r))"
  define dashed where "dashed = replaceRuns isSpace (CHR ''-'') (filter keptChar lower)"
  define coll where "coll = replaceRuns (\<lambda>c. c = CHR ''-'') (CHR ''-'') dashed"
  have sl: "slug B r = stripEdgeDashes coll"
    by (simp add: slug_def Let_def coll_def dashed_def lower_def)
  have nd: "noDoubleDash coll"
    unfolding coll_def by (rule noDoubleDash_replaceRuns)
  have "set dashed \<subseteq> insert (CHR ''-'') {c \<in> set (filter keptChar lower). \<not> isSpace c}"
    unfolding dashed_def by (rule set_replaceRuns)
  then have d: "\<forall>x \<in> set dashed. x \<in> set alnum \<or> x = CHR ''-''"
    by (auto simp: keptChar_def)
  have "set coll \<subseteq> insert (CHR ''-'') {c \<in> set dashed. c \<noteq> CHR ''-''}"
    unfolding coll_def by (rule set_replaceRuns)
  with d have c: "\<forall>x \<in> set coll. x \<in> set alnum \<or> x = CHR ''-''"
    by auto
  have f: "noDoubleDash (stripEdgeDashes coll)" "set (stripEdgeDashes coll) \<subseteq> set coll"
    "hd (stripEdgeDashes coll) \<noteq> CHR ''-''" "last (stripEdgeDashes coll) \<noteq> CHR ''-''"
    using stripEdgeDashes_form [OF nd] ne unfolding sl by simp_all
  from f(2) c have g: "\<forall>x \<in> set (stripEdgeDashes coll). x \<in> set alnum \<or> x = CHR ''-''"
    by blast
  show ?thesis
    unfolding slugForm_def list_all_iff using ne f g unfolding sl by simp
qed

lemma hexDigit_hex: "d < 16 \<Longrightarrow> hexDigit d \<in> set hexDigits"
  unfolding hexDigit_def by (rule nth_mem) (simp add: hexDigits_def)

lemma toString16_hex:
  "toString16 n \<noteq> [] \<and> list_all (\<lambda>c. c \<in> set hexDigits) (toString16 n)"
proof (induction n rule: toString16.induct)
  case (1 n)
  show ?case
  proof (cases "n < 16")
    case True
    then show ?thesis
      using hexDigit_hex [of n] by (simp add: toString16.simps [of n])
  next
    case False
    then show ?thesis
      using 1 hexDigit_hex [of "n mod 16"] by (simp add: toString16.simps [of n])
  qed
qed

lemma fallbackForm_id: "fallbackForm (''id-'' @ toString16 n)"
  using toString16_hex [of n] by (simp add: fallbackForm_def)

text \<open>
  C5, as the code has it. \<open>createKey\<close> returns a string that is not empty and that
  is made of lower-case ASCII letters, digits and single hyphens with none at either
  end, or has the form \<open>id-\<close> and hexadecimal digits. When the slug of the text is
  not empty the key is that slug, whatever the entropy source holds, and no random
  value is drawn: two calls on the same text return the same key. When the slug is
  empty the key is \<open>id-\<close> and the hexadecimal digits of the next random word.
\<close>

theorem createKey_form:
  "fst (createKey B r c) \<noteq> []
   \<and> (slugForm (fst (createKey B r c)) \<or> fallbackForm (fst (createKey B r c)))
   \<and> (slug B r \<noteq> [] \<longrightarrow> createKey B r c = (slug B r, c))
   \<and> (slug B r \<noteq> [] \<longrightarrow> fst (createKey B r c) = fst (createKey B r c'))
   \<and> (slug B r = [] \<longrightarrow>
        fst (createKey B r c) = ''id-'' @ toString16 (unat (shd (randomValues c))))"
proof (cases "slug B r = []")
  case True
  then have k: "fst (createKey B r c) = ''id-'' @ toString16 (unat (shd (randomValues c)))"
    by (simp add: createKey_def getRandomValues_def)
  show ?thesis
    using True fallbackForm_id [of "unat (shd (randomValues c))"] unfolding k by simp
next
  case False
  then have k: "createKey B r c = (slug B r, c)" "createKey B r c' = (slug B r, c')"
    by (simp_all add: createKey_def)
  show ?thesis
    using False slug_form [OF False] unfolding k by simp
qed

lemma slug_symbols: "slug ascii ''!!!'' = []"
  by code_simp

lemma toString16_digit: "n < 16 \<Longrightarrow> toString16 n = [hexDigit n]"
  by (simp add: toString16.simps [of n])

text \<open>
  C5 as stated fails on a text without letters or digits: two calls on \<open>!!!\<close> return
  the keys of two random words.
\<close>

theorem createKey_deterministic_counterexample:
  "fst (createKey ascii ''!!!'' (entropy [1])) = ''id-1''
   \<and> fst (createKey ascii ''!!!'' (entropy [2])) = ''id-2''"
  by (simp add: createKey_def slug_symbols getRandomValues_def entropy_def toString16_digit
      hexDigit_def hexDigits_def)

theorem createKey_form_witness:
  "createKey ascii ''Anna  Novak'' (entropy [1]) = (''anna-novak'', entropy [1])
   \<and> fst (createKey ascii ''Anna  Novak'' (entropy [2])) = ''anna-novak''
   \<and> slugForm ''anna-novak''"
proof -
  have s: "slug ascii ''Anna  Novak'' = ''anna-novak''"
    by code_simp
  then have ne: "slug ascii ''Anna  Novak'' \<noteq> []" by simp
  have f: "slugForm ''anna-novak''" by code_simp
  show ?thesis
    using createKey_form [of ascii "''Anna  Novak''" "entropy [1]" "entropy [2]"] ne f
    unfolding s by (metis fst_conv)
qed

subsection \<open>Merging names\<close>

lemma keyed_simps [simp]:
  "keyed []" "keyed ((k, v) # m) \<longleftrightarrow> key v = k \<and> keyed m"
  by (simp_all add: keyed_def)

lemma keyed_set: "keyed m \<Longrightarrow> (k, v) \<in> set m \<Longrightarrow> key v = k"
  by (auto simp: keyed_def list_all_iff)

lemma map_fst_map_set: "map fst (map_set k v m) = set_add k (map fst m)"
  by (induction m) (force simp: set_add_def)+

lemma map_of_map_set: "map_of (map_set k v m) = (map_of m)(k \<mapsto> v)"
  by (induction m) auto

lemma map_set_idem: "map_set k v (map_set k v m) = map_set k v m"
  by (induction m) auto

lemma map_set_fresh: "k \<notin> fst ` set m \<Longrightarrow> map_set k v m = m @ [(k, v)]"
  by (induction m) auto

lemma keyed_map_set: "keyed m \<Longrightarrow> key v = k \<Longrightarrow> keyed (map_set k v m)"
  by (induction m) auto

lemma keyed_values: "keyed m \<Longrightarrow> map key (map snd m) = map fst m"
proof (induction m)
  case Nil
  then show ?case by simp
next
  case (Cons e m)
  obtain k v where e: "e = (k, v)" by (cases e)
  from Cons.prems have "key v = k" "keyed m" unfolding e by simp_all
  with Cons.IH show ?case unfolding e by simp
qed

lemma keyed_rebuild: "keyed m \<Longrightarrow> map (\<lambda>item. (key item, item)) (map snd m) = m"
  by (induction m) auto

lemma distinct_foldl_set_add:
  "distinct acc \<Longrightarrow> distinct (foldl (\<lambda>s x. set_add x s) acc xs)"
  by (induction xs arbitrary: acc) (auto simp: set_add_def)

lemma distinct_new_Set: "distinct (new_Set xs)"
  by (simp add: new_Set_def distinct_foldl_set_add)

lemma foldl_map_set_keys:
  "map fst (foldl (\<lambda>m (k, v). map_set k v m) acc es)
     = foldl (\<lambda>s k. set_add k s) (map fst acc) (map fst es)"
  by (induction es arbitrary: acc) (auto simp: map_fst_map_set)

lemma new_Map_keys: "map fst (new_Map es) = new_Set (map fst es)"
  by (simp add: new_Map_def new_Set_def foldl_map_set_keys)

lemma foldl_map_set_keyed:
  "keyed acc \<Longrightarrow> keyed es \<Longrightarrow> keyed (foldl (\<lambda>m (k, v). map_set k v m) acc es)"
  by (induction es arbitrary: acc) (auto simp: keyed_map_set)

lemma new_Map_keyed: "keyed (new_Map (map (\<lambda>item. (key item, item)) existing))"
proof -
  have "keyed (map (\<lambda>item. (key item, item)) existing)"
    by (induction existing) simp_all
  then show ?thesis
    unfolding new_Map_def by (intro foldl_map_set_keyed) simp_all
qed

lemma foldl_map_set_distinct:
  "distinct (map fst (acc @ es)) \<Longrightarrow> foldl (\<lambda>m (k, v). map_set k v m) acc es = acc @ es"
proof (induction es arbitrary: acc)
  case Nil
  then show ?case by simp
next
  case (Cons e es)
  obtain k v where e: "e = (k, v)" by (cases e)
  from Cons.prems have "k \<notin> fst ` set acc" unfolding e by auto
  then have "map_set k v acc = acc @ [(k, v)]" by (rule map_set_fresh)
  moreover from Cons.prems have "distinct (map fst ((acc @ [(k, v)]) @ es))" unfolding e by simp
  ultimately show ?case
    using Cons.IH [of "acc @ [(k, v)]"] unfolding e by simp
qed

lemma new_Map_distinct: "distinct (map fst es) \<Longrightarrow> new_Map es = es"
  using foldl_map_set_distinct [of "[]" es] by (simp add: new_Map_def)

lemma mergeLoop_keys:
  "map fst (fst (mergeLoop B m rs c))
     = foldl (\<lambda>s k. set_add k s) (map fst m) (map fst (derived B rs c))"
  by (induction rs arbitrary: m c) (auto simp: Let_def map_fst_map_set split: prod.splits)

lemma mergeLoop_keyed: "keyed m \<Longrightarrow> keyed (fst (mergeLoop B m rs c))"
  by (induction rs arbitrary: m c)
     (auto simp: Let_def createKey_def keyed_map_set split: prod.splits if_splits)

lemma mergeLoop_append:
  "mergeLoop B m (rs @ rs') c = (case mergeLoop B m rs c of (m', c') \<Rightarrow> mergeLoop B m' rs' c')"
  by (induction rs arbitrary: m c) (auto simp: Let_def split: prod.splits)

lemma mergeLoop_slug:
  "clean B r \<noteq> [] \<Longrightarrow> slug B (clean B r) \<noteq> [] \<Longrightarrow>
     mergeLoop B m [r] c
       = (map_set (slug B (clean B r)) \<lparr>raw = clean B r, key = slug B (clean B r)\<rparr> m, c)"
  by (simp add: Let_def createKey_def)

lemma mergeNames_key_sequence:
  "map key (fst (mergeNames B existing rs c))
     = new_Set (map key existing @ map fst (derived B rs c))"
proof -
  let ?m0 = "new_Map (map (\<lambda>item. (key item, item)) existing)"
  have k: "keyed (fst (mergeLoop B ?m0 rs c))"
    by (rule mergeLoop_keyed [OF new_Map_keyed])
  have "map key (fst (mergeNames B existing rs c)) = map fst (fst (mergeLoop B ?m0 rs c))"
    using keyed_values [OF k] by (simp add: mergeNames_def map_values_def split: prod.splits)
  also have "\<dots> = foldl (\<lambda>s k. set_add k s) (new_Set (map key existing)) (map fst (derived B rs c))"
    by (simp add: mergeLoop_keys new_Map_keys comp_def)
  also have "\<dots> = new_Set (map key existing @ map fst (derived B rs c))"
    by (simp add: new_Set_def)
  finally show ?thesis .
qed

lemma filter_key_unique:
  "distinct (map fst m) \<Longrightarrow> keyed m \<Longrightarrow> map_of m k = Some v
     \<Longrightarrow> filter (\<lambda>n. key n = k) (map snd m) = [v]"
proof (induction m)
  case Nil
  then show ?case by simp
next
  case (Cons e m)
  obtain k' v' where e: "e = (k', v')" by (cases e)
  from Cons.prems have kv: "key v' = k'" and km: "keyed m" and d: "distinct (map fst m)"
    and nk: "k' \<notin> fst ` set m"
    unfolding e by auto
  show ?case
  proof (cases "k' = k")
    case True
    with Cons.prems have v: "v' = v" unfolding e by simp
    have "filter (\<lambda>n. key n = k) (map snd m) = []"
    proof -
      have "\<forall>x \<in> set m. key (snd x) \<noteq> k"
        using nk True keyed_set [OF km] by force
      then show ?thesis by (auto simp: filter_empty_conv)
    qed
    then show ?thesis unfolding e using kv True v by simp
  next
    case False
    with Cons.prems have "map_of m k = Some v" unfolding e by simp
    from Cons.IH [OF d km this] show ?thesis
      unfolding e using kv False by simp
  qed
qed

lemma mergeNames_last_wins:
  assumes "clean B r \<noteq> []" "slug B (clean B r) \<noteq> []"
  shows "filter (\<lambda>n. key n = slug B (clean B r)) (fst (mergeNames B existing (rs @ [r]) c))
       = [\<lparr>raw = clean B r, key = slug B (clean B r)\<rparr>]"
proof -
  let ?k = "slug B (clean B r)"
  let ?v = "\<lparr>raw = clean B r, key = ?k\<rparr>"
  let ?m0 = "new_Map (map (\<lambda>item. (key item, item)) existing)"
  obtain m1 c1 where l: "mergeLoop B ?m0 rs c = (m1, c1)" by (cases "mergeLoop B ?m0 rs c")
  have k1: "keyed m1"
    using mergeLoop_keyed [OF new_Map_keyed, of B existing rs c] l by simp
  have "map fst m1 = foldl (\<lambda>s k. set_add k s) (map fst ?m0) (map fst (derived B rs c))"
    using mergeLoop_keys [of B ?m0 rs c] l by simp
  then have d1: "distinct (map fst m1)"
    by (simp add: new_Map_keys distinct_foldl_set_add distinct_new_Set)
  let ?m2 = "map_set ?k ?v m1"
  have e: "fst (mergeNames B existing (rs @ [r]) c) = map snd ?m2"
    using l mergeLoop_slug [OF assms, of m1 c1]
    by (simp add: mergeNames_def mergeLoop_append map_values_def)
  have "distinct (map fst ?m2)"
    using d1 by (simp add: map_fst_map_set set_add_def)
  moreover have "keyed ?m2"
    using k1 by (simp add: keyed_map_set)
  moreover have "map_of ?m2 ?k = Some ?v"
    by (simp add: map_of_map_set)
  ultimately show ?thesis
    unfolding e by (rule filter_key_unique)
qed

lemma mergeNames_idem:
  assumes "clean B r \<noteq> []" "slug B (clean B r) \<noteq> []"
  shows "fst (mergeNames B (fst (mergeNames B existing [r] c)) [r] c')
       = fst (mergeNames B existing [r] c)"
proof -
  let ?k = "slug B (clean B r)"
  let ?v = "\<lparr>raw = clean B r, key = ?k\<rparr>"
  let ?m0 = "new_Map (map (\<lambda>item. (key item, item)) existing)"
  let ?m1 = "map_set ?k ?v ?m0"
  have r1: "fst (mergeNames B existing [r] c) = map snd ?m1"
    using mergeLoop_slug [OF assms, of ?m0 c] by (simp add: mergeNames_def map_values_def)
  have k1: "keyed ?m1"
    using new_Map_keyed by (simp add: keyed_map_set)
  have d1: "distinct (map fst ?m1)"
    by (simp add: map_fst_map_set new_Map_keys set_add_def distinct_new_Set)
  have "map (\<lambda>item. (key item, item)) (map snd ?m1) = ?m1"
    by (rule keyed_rebuild [OF k1])
  then have "new_Map (map (\<lambda>item. (key item, item)) (map snd ?m1)) = ?m1"
    using new_Map_distinct [OF d1] by simp
  then have "fst (mergeNames B (map snd ?m1) [r] c') = map snd (map_set ?k ?v ?m1)"
    using mergeLoop_slug [OF assms, of ?m1 c'] by (simp add: mergeNames_def map_values_def)
  then show ?thesis
    unfolding r1 by (simp add: map_set_idem)
qed

lemma foldl_set_add_extends: "\<exists>zs. foldl (\<lambda>s x. set_add x s) acc ys = acc @ zs"
proof (induction ys arbitrary: acc)
  case Nil
  then show ?case by simp
next
  case (Cons y ys)
  from Cons [of "set_add y acc"] obtain zs where
    "foldl (\<lambda>s x. set_add x s) (set_add y acc) ys = set_add y acc @ zs" by blast
  then show ?case by (cases "y \<in> set acc") (simp_all add: set_add_def)
qed

lemma new_Set_distinct: "distinct xs \<Longrightarrow> new_Set xs = xs"
proof -
  have "distinct (acc @ xs) \<Longrightarrow> foldl (\<lambda>s x. set_add x s) acc xs = acc @ xs" for acc
    by (induction xs arbitrary: acc) (simp_all add: set_add_def)
  from this [of "[]"] show "distinct xs \<Longrightarrow> new_Set xs = xs"
    by (simp add: new_Set_def)
qed

lemma new_Set_prefix:
  assumes "distinct xs"
  shows "take (length xs) (new_Set (xs @ ys)) = xs"
proof -
  have "new_Set (xs @ ys) = foldl (\<lambda>s x. set_add x s) xs ys"
    using new_Set_distinct [OF assms] by (simp add: new_Set_def)
  with foldl_set_add_extends [of xs ys] show ?thesis by auto
qed

text \<open>
  C7, as the code has it. The roster \<open>mergeNames\<close> returns never has two entries with
  the same key. Its keys are those of the existing entries followed by the derived
  keys in input order, each at its first occurrence, so the existing entries of a roster
  come first and in their order. When the slug of a cleaned name is not empty, the
  roster has exactly one entry for that slug once the name has been merged, with the
  text that was merged last, and merging the name a second time changes nothing.
\<close>

theorem mergeNames_roster:
  "distinct (map key (fst (mergeNames B existing rawNames c)))
   \<and> map key (fst (mergeNames B existing rawNames c))
       = new_Set (map key existing @ map fst (derived B rawNames c))
   \<and> (distinct (map key existing) \<longrightarrow>
        take (length existing) (map key (fst (mergeNames B existing rawNames c)))
          = map key existing)
   \<and> (clean B r \<noteq> [] \<and> slug B (clean B r) \<noteq> [] \<longrightarrow>
        filter (\<lambda>n. key n = slug B (clean B r))
            (fst (mergeNames B existing (rawNames @ [r]) c))
          = [\<lparr>raw = clean B r, key = slug B (clean B r)\<rparr>]
      \<and> fst (mergeNames B (fst (mergeNames B existing [r] c)) [r] c')
          = fst (mergeNames B existing [r] c))"
proof -
  have a: "map key (fst (mergeNames B existing rawNames c))
       = new_Set (map key existing @ map fst (derived B rawNames c))"
    by (rule mergeNames_key_sequence)
  have b: "distinct (map key (fst (mergeNames B existing rawNames c)))"
    unfolding a by (rule distinct_new_Set)
  have c: "distinct (map key existing) \<longrightarrow>
        take (length existing) (map key (fst (mergeNames B existing rawNames c)))
          = map key existing"
    unfolding a using new_Set_prefix [of "map key existing"] by auto
  have d: "clean B r \<noteq> [] \<and> slug B (clean B r) \<noteq> [] \<longrightarrow>
        filter (\<lambda>n. key n = slug B (clean B r))
            (fst (mergeNames B existing (rawNames @ [r]) c))
          = [\<lparr>raw = clean B r, key = slug B (clean B r)\<rparr>]
      \<and> fst (mergeNames B (fst (mergeNames B existing [r] c)) [r] c')
          = fst (mergeNames B existing [r] c)"
    using mergeNames_last_wins [of B r existing rawNames c] mergeNames_idem [of B r existing c c']
    by blast
  show ?thesis using a b c d by blast
qed

lemma clean_symbols: "clean ascii ''!!!'' = ''!!!''"
  by code_simp

text \<open>
  C7 as stated fails on a name whose slug is empty: each merge of \<open>!!!\<close> derives a
  fresh random key, and merging it twice yields two entries.
\<close>

theorem mergeNames_twice_counterexample:
  "fst (mergeNames ascii [] [''!!!'', ''!!!''] (entropy [1, 2]))
   = [\<lparr>raw = ''!!!'', key = ''id-1''\<rparr>, \<lparr>raw = ''!!!'', key = ''id-2''\<rparr>]"
  by (simp add: mergeNames_def new_Map_def map_values_def clean_symbols createKey_def
      slug_symbols getRandomValues_def entropy_def toString16_digit hexDigit_def hexDigits_def
      Let_def)

theorem mergeNames_roster_witness:
  "filter (\<lambda>n. key n = ''anna-novak'')
     (fst (mergeNames ascii [\<lparr>raw = ''Anna Novak'', key = ''anna-novak''\<rparr>]
        ([''Bob''] @ [''anna   novak'']) (entropy [])))
   = [\<lparr>raw = ''anna novak'', key = ''anna-novak''\<rparr>]
   \<and> map key (fst (mergeNames ascii [\<lparr>raw = ''Anna Novak'', key = ''anna-novak''\<rparr>]
        [''Bob'', ''anna   novak''] (entropy [])))
   = [''anna-novak'', ''bob'']"
proof -
  have cl: "clean ascii ''anna   novak'' = ''anna novak''" by code_simp
  have sl: "slug ascii ''anna novak'' = ''anna-novak''" by code_simp
  have clb: "clean ascii ''Bob'' = ''Bob''" by code_simp
  have slb: "slug ascii ''Bob'' = ''bob''" by code_simp
  have d: "map fst (derived ascii [''Bob'', ''anna   novak''] (entropy [])) = [''bob'', ''anna-novak'']"
    by (simp add: cl sl clb slb createKey_def)
  have n: "new_Set [''anna-novak'', ''bob'', ''anna-novak''] = [''anna-novak'', ''bob'']"
    by (simp add: new_Set_def set_add_def)
  have h: "clean ascii ''anna   novak'' \<noteq> [] \<and> slug ascii (clean ascii ''anna   novak'') \<noteq> []"
    by (simp add: cl sl)
  let ?E = "[\<lparr>raw = ''Anna Novak'', key = ''anna-novak''\<rparr>]"
  have "filter (\<lambda>n. key n = slug ascii (clean ascii ''anna   novak''))
      (fst (mergeNames ascii ?E ([''Bob''] @ [''anna   novak'']) (entropy [])))
    = [\<lparr>raw = clean ascii ''anna   novak'', key = slug ascii (clean ascii ''anna   novak'')\<rparr>]"
    using mergeNames_roster [of ascii ?E "[''Bob'']" "entropy []" "''anna   novak''" "entropy []"] h
    by blast
  then have w1: "filter (\<lambda>n. key n = ''anna-novak'')
      (fst (mergeNames ascii ?E ([''Bob''] @ [''anna   novak'']) (entropy [])))
    = [\<lparr>raw = ''anna novak'', key = ''anna-novak''\<rparr>]"
    unfolding cl sl .
  have "map key (fst (mergeNames ascii ?E [''Bob'', ''anna   novak''] (entropy [])))
    = new_Set (map key ?E @ map fst (derived ascii [''Bob'', ''anna   novak''] (entropy [])))"
    using mergeNames_roster [of ascii ?E "[''Bob'', ''anna   novak'']" "entropy []" "''x''" "entropy []"]
    by blast
  then have w2: "map key (fst (mergeNames ascii ?E [''Bob'', ''anna   novak''] (entropy [])))
    = [''anna-novak'', ''bob'']"
    unfolding d by (simp add: n)
  show ?thesis using w1 w2 by simp
qed

subsection \<open>Export and import\<close>






lemma storeInvariant_kept:
  shows "storeInvariant initialData"
    and "storeInvariant d \<Longrightarrow> storeInvariant (setClassKey k d)"
    and "storeInvariant d \<Longrightarrow> storeInvariant (updateFromStorage p d)"
    and "storeInvariant d \<Longrightarrow> storeInvariant (setNames ns d)"
    and "storeInvariant d \<Longrightarrow> storeInvariant (toggleAbsent a b d)"
    and "storeInvariant d \<Longrightarrow> storeInvariant (clearAbsent d)"
    and "storeInvariant d \<Longrightarrow> storeInvariant (addHistory e d)"
    and "storeInvariant d \<Longrightarrow> storeInvariant (resetHistory d)"
    and "storeInvariant d \<Longrightarrow> storeInvariant (setSettings ps d)"
  by (simp_all add: storeInvariant_def initialData_def DEFAULT_CLASS_KEY_def setClassKey_def
      updateFromStorage_def setNames_def toggleAbsent_def clearAbsent_def addHistory_def
      resetHistory_def setSettings_def distinct_new_Set set_add_def set_delete_def Let_def)




























end
